theory Spec2Isabelle
  imports Main "HOL-Library.Sublist" "HOL-Library.Char_ord" "HOL-Library.AList"
begin

section \<open>Python string primitives\<close>

text \<open>
  Python strings are modelled as \<open>string\<close>: a character is a code point below 256.
  \<open>py_isspace\<close> is \<open>str.isspace\<close> on these code points, \<open>strip\<close> is
  \<open>str.strip()\<close>, \<open>split_on\<close> is \<open>str.split(sep)\<close> for a one-character
  separator and \<open>str_in a b\<close> is the test \<open>a in b\<close>.
\<close>

definition py_isspace :: "char \<Rightarrow> bool" where
  "py_isspace c = (c \<in> set [CHR 0x09, CHR 0x0A, CHR 0x0B, CHR 0x0C, CHR 0x0D,
                              CHR 0x1C, CHR 0x1D, CHR 0x1E, CHR 0x1F, CHR 0x20,
                              CHR 0x85, CHR 0xA0])"

definition strip :: "string \<Rightarrow> string" where
  "strip s = rev (dropWhile py_isspace (rev (dropWhile py_isspace s)))"

fun startswith :: "string \<Rightarrow> char \<Rightarrow> bool" where
  "startswith [] c = False"
| "startswith (x # xs) c = (x = c)"

fun split_acc :: "char \<Rightarrow> string \<Rightarrow> string \<Rightarrow> string list" where
  "split_acc sep cur [] = [rev cur]"
| "split_acc sep cur (c # cs) =
     (if c = sep then rev cur # split_acc sep [] cs else split_acc sep (c # cur) cs)"

definition split_on :: "char \<Rightarrow> string \<Rightarrow> string list" where
  "split_on sep s = split_acc sep [] s"

fun str_in :: "string \<Rightarrow> string \<Rightarrow> bool" where
  "str_in needle [] = (needle = [])"
| "str_in needle (c # cs) = (prefix needle (c # cs) \<or> str_in needle cs)"

section \<open>The rule pattern of \<open>parse_css\<close> and \<open>generate_critical_css\<close>\<close>

text \<open>
  \<open>findall_rules s\<close> is \<open>re.compile(r'([^{]+){([^}]*)}').findall(s)\<close>: the list of
  (selector text, declaration text) of the successive non-overlapping matches. A match
  starts at the first character that is not an opening brace, its first group runs to
  the next opening brace, its second group to the next closing brace; when either brace
  is missing there is no further match. \<open>parse_css\<close> uses the same pattern with the
  second group not captured, which is the first component here.
\<close>

definition not_open :: "char \<Rightarrow> bool" where
  "not_open c = (c \<noteq> CHR ''{'')"

definition not_close :: "char \<Rightarrow> bool" where
  "not_close c = (c \<noteq> CHR ''}'')"

definition next_rule :: "string \<Rightarrow> (string \<times> string \<times> string) option" where
  "next_rule s =
     (let s1 = dropWhile (\<lambda>c. \<not> not_open c) s;
          sel = takeWhile not_open s1;
          r1 = dropWhile not_open s1
      in if sel = [] \<or> r1 = [] then None
         else let r2 = tl r1;
                  body = takeWhile not_close r2;
                  r3 = dropWhile not_close r2
              in if r3 = [] then None else Some (sel, body, tl r3))"

lemma next_rule_shorter:
  assumes "next_rule s = Some (sel, body, rest)"
  shows "length rest < length s"
proof -
  define s1 where "s1 = dropWhile (\<lambda>c. \<not> not_open c) s"
  define r1 where "r1 = dropWhile not_open s1"
  define r3 where "r3 = dropWhile not_close (tl r1)"
  have ne: "r3 \<noteq> []" and rest: "rest = tl r3"
    using assms unfolding next_rule_def Let_def s1_def r1_def r3_def
    by (auto split: if_splits)
  have "length r3 \<le> length (tl r1)"
    unfolding r3_def by (rule length_dropWhile_le)
  moreover have "length (tl r1) \<le> length r1" by simp
  moreover have "length r1 \<le> length s1"
    unfolding r1_def by (rule length_dropWhile_le)
  moreover have "length s1 \<le> length s"
    unfolding s1_def by (rule length_dropWhile_le)
  moreover have "length (tl r3) < length r3"
    using ne by (cases r3) auto
  ultimately show ?thesis using rest by simp
qed

function findall_rules :: "string \<Rightarrow> (string \<times> string) list" where
  "findall_rules s =
     (case next_rule s of
        None \<Rightarrow> []
      | Some (sel, body, rest) \<Rightarrow> (sel, body) # findall_rules rest)"
  by pat_completeness auto
termination
  by (relation "measure length") (auto simp: next_rule_shorter)

declare findall_rules.simps [simp del]

section \<open>\<open>parse_css\<close>\<close>

fun parse_matches :: "(string \<times> string) list \<Rightarrow> string list \<Rightarrow> string list" where
  "parse_matches [] selectors = selectors"
| "parse_matches (m # ms) selectors =
     (let selector = strip (fst m)
      in if startswith selector CHR ''@'' then parse_matches ms selectors
         else parse_matches ms (selectors @ map strip (split_on CHR '','' selector)))"

definition parse_css :: "string \<Rightarrow> string list" where
  "parse_css css_content = parse_matches (findall_rules css_content) []"

section \<open>\<open>match_selectors\<close>\<close>

text \<open>
  \<open>strip_pseudo s\<close> is \<open>re.sub(r'::?[a-zA-Z-]+(\([^)]*\))?', '', s)\<close>. At a colon,
  \<open>pseudo_end\<close> gives the text after the match that starts there (one more colon when
  present, a longest non-empty run of letters and hyphens, then a parenthesised argument
  running to the first closing parenthesis when there is one), or \<open>None\<close> when the
  pattern does not match there and the colon is kept.
\<close>

definition is_ident_char :: "char \<Rightarrow> bool" where
  "is_ident_char c =
     ((CHR ''a'' \<le> c \<and> c \<le> CHR ''z'') \<or> (CHR ''A'' \<le> c \<and> c \<le> CHR ''Z'') \<or> c = CHR ''-'')"

definition not_rparen :: "char \<Rightarrow> bool" where
  "not_rparen c = (c \<noteq> CHR '')'')"

definition pseudo_end :: "string \<Rightarrow> string option" where
  "pseudo_end cs =
     (let r = (if startswith cs CHR '':'' then tl cs else cs);
          rest = dropWhile is_ident_char r
      in if takeWhile is_ident_char r = [] then None
         else if startswith rest CHR ''('' \<and> dropWhile not_rparen (tl rest) \<noteq> []
              then Some (tl (dropWhile not_rparen (tl rest)))
              else Some rest)"

lemma pseudo_end_shorter:
  assumes "pseudo_end cs = Some rest"
  shows "length rest \<le> length cs"
proof -
  define r where "r = (if startswith cs CHR '':'' then tl cs else cs)"
  define d where "d = dropWhile is_ident_char r"
  have r: "length r \<le> length cs" by (simp add: r_def)
  have d: "length d \<le> length r" unfolding d_def by (rule length_dropWhile_le)
  have p: "length (tl (dropWhile not_rparen (tl d))) \<le> length d"
    using length_dropWhile_le [of not_rparen "tl d"] by simp
  have "rest = d \<or> rest = tl (dropWhile not_rparen (tl d))"
    using assms unfolding pseudo_end_def Let_def r_def d_def
    by (auto split: if_splits)
  then show ?thesis using r d p by auto
qed

function strip_pseudo :: "string \<Rightarrow> string" where
  "strip_pseudo [] = []"
| "strip_pseudo (c # cs) =
     (if c = CHR '':'' then
        (case pseudo_end cs of
           None \<Rightarrow> c # strip_pseudo cs
         | Some rest \<Rightarrow> strip_pseudo rest)
      else c # strip_pseudo cs)"
  by pat_completeness auto
termination
  by (relation "measure length") (auto simp: pseudo_end_shorter less_Suc_eq_le)

declare strip_pseudo.simps [simp del]

text \<open>
  \<open>element_selectors\<close> is a Python set, iterated in an order the language does not
  fix: it is given as the list of its members in the order of iteration.
  \<open>any_element_selector\<close> is the inner loop, which leaves at the first member
  contained in the base selector; \<open>match_loop\<close> is the outer loop over the parsed
  selectors with the set \<open>matching_selectors\<close> built so far.
\<close>

fun any_element_selector :: "string list \<Rightarrow> string \<Rightarrow> bool" where
  "any_element_selector [] base_selector = False"
| "any_element_selector (element_selector # es) base_selector =
     (if str_in element_selector base_selector then True
      else any_element_selector es base_selector)"

fun match_loop :: "string list \<Rightarrow> string list \<Rightarrow> string set \<Rightarrow> string set" where
  "match_loop es [] matching_selectors = matching_selectors"
| "match_loop es (css_selector # rest) matching_selectors =
     (let base_selector = strip_pseudo css_selector
      in if any_element_selector es base_selector
         then match_loop es rest (insert css_selector matching_selectors)
         else match_loop es rest matching_selectors)"

definition match_selectors :: "string list \<Rightarrow> string list \<Rightarrow> string set" where
  "match_selectors element_selectors css_selectors =
     match_loop element_selectors css_selectors {}"

section \<open>\<open>generate_critical_css\<close>\<close>

definition header_comment :: string where
  "header_comment = ''/* Critical CSS extracted by PageSpeed AI */\<newline>''"

definition preamble :: string where
  "preamble = ''\<newline>html, body {\<newline>    margin: 0;\<newline>    padding: 0;\<newline>    box-sizing: border-box;\<newline>}\<newline>\<newline>*, *::before, *::after {\<newline>    box-sizing: inherit;\<newline>}\<newline>''"

text \<open>
  \<open>rule_parts\<close> is the list of the trimmed, non-empty declarations of a block;
  \<open>format_rule\<close> is the text appended for one emitted rule.
\<close>

definition rule_parts :: "string \<Rightarrow> string list" where
  "rule_parts rules = map strip (filter (\<lambda>r. strip r \<noteq> []) (split_on CHR '';'' rules))"

definition format_rule :: "string \<Rightarrow> string \<Rightarrow> string" where
  "format_rule selector rules =
     selector @ '' {\<newline>'' @ concat (map (\<lambda>rule. ''    '' @ rule @ '';\<newline>'') (rule_parts rules))
       @ ''}\<newline>\<newline>''"

fun emit_matches :: "string set \<Rightarrow> (string \<times> string) list \<Rightarrow> string \<Rightarrow> string" where
  "emit_matches critical_selectors [] critical_css = critical_css"
| "emit_matches critical_selectors (m # ms) critical_css =
     (let selector = strip (fst m)
      in if startswith selector CHR ''@'' then emit_matches critical_selectors ms critical_css
         else let selector_parts = map strip (split_on CHR '','' selector)
              in if \<exists>s \<in> set selector_parts. s \<in> critical_selectors
                 then emit_matches critical_selectors ms
                        (critical_css @ format_rule selector (snd m))
                 else emit_matches critical_selectors ms critical_css)"

text \<open>
  \<open>css_contents\<close> is the dictionary of stylesheet texts, given as the list of its
  items in the order of iteration.
\<close>

fun emit_sheets :: "string set \<Rightarrow> (string \<times> string) list \<Rightarrow> string \<Rightarrow> string" where
  "emit_sheets critical_selectors [] critical_css = critical_css"
| "emit_sheets critical_selectors ((css_url, css_content) # sheets) critical_css =
     emit_sheets critical_selectors sheets
       (emit_matches critical_selectors (findall_rules css_content) critical_css)"

definition generate_critical_css :: "(string \<times> string) list \<Rightarrow> string set \<Rightarrow> string" where
  "generate_critical_css css_contents critical_selectors =
     emit_sheets critical_selectors css_contents (header_comment @ preamble)"

section \<open>The document tree\<close>

text \<open>
  The document tree is the one BeautifulSoup builds. An element carries its identity
  \<open>ident\<close> (the Python object), its tag name, its attribute dictionary and its
  children; a multi-valued attribute such as \<open>class\<close> or \<open>rel\<close> holds a list of
  tokens, any other a string. The root is the soup object, a tag named
  \<open>[document]\<close>. \<open>descendants\<close> lists what is below a node in document order, and
  \<open>find_all\<close> keeps the tags among them that satisfy a test.
\<close>

datatype attr_value = Str string | Toks "string list"

datatype node =
    Tag (ident: nat) (name: string) (attrs: "(string \<times> attr_value) list") (contents: "node list")
  | NavigableString (ident: nat) (string: string)

datatype py_error = ValueError | TypeError | KeyError | IndexError

fun is_tag :: "node \<Rightarrow> bool" where
  "is_tag (Tag i n a cs) = True"
| "is_tag (NavigableString i s) = False"

fun descendants :: "node \<Rightarrow> node list" where
  "descendants (Tag i n a cs) = concat (map (\<lambda>c. c # descendants c) cs)"
| "descendants (NavigableString i s) = []"

definition find_all :: "(node \<Rightarrow> bool) \<Rightarrow> node \<Rightarrow> node list" where
  "find_all P root = filter (\<lambda>e. is_tag e \<and> P e) (descendants root)"

definition get_attr :: "node \<Rightarrow> string \<Rightarrow> attr_value option" where
  "get_attr e k = map_of (attrs e) k"

definition has_attr :: "node \<Rightarrow> string \<Rightarrow> bool" where
  "has_attr e k = (get_attr e k \<noteq> None)"

definition name_in :: "string list \<Rightarrow> node \<Rightarrow> bool" where
  "name_in names e = (name e \<in> set names)"

text \<open>
  \<open>join_tokens\<close> is \<open>' '.join\<close>. A test \<open>f\<close> given to \<open>find_all\<close> for an attribute
  is applied to \<open>None\<close> when the attribute is absent; for a list of tokens, to each
  token and, when none passes, to the tokens joined by spaces; for a string, to it.
\<close>

fun join_tokens :: "string list \<Rightarrow> string" where
  "join_tokens [] = []"
| "join_tokens [t] = t"
| "join_tokens (t # u # ts) = t @ '' '' @ join_tokens (u # ts)"

definition attr_matches :: "(string option \<Rightarrow> bool) \<Rightarrow> string \<Rightarrow> node \<Rightarrow> bool" where
  "attr_matches f k e =
     (case get_attr e k of
        None \<Rightarrow> f None
      | Some (Str s) \<Rightarrow> f (Some s)
      | Some (Toks ts) \<Rightarrow> (\<exists>t \<in> set ts. f (Some t)) \<or> f (Some (join_tokens ts)))"

text \<open>
  \<open>lower\<close> is \<open>str.lower()\<close> on code points below 256: the letters A to Z and the
  accented capitals 192 to 222, the multiplication sign 215 apart, move up by 32.
\<close>

definition lower_char :: "char \<Rightarrow> char" where
  "lower_char c =
     (let n = (of_char c :: nat)
      in if (65 \<le> n \<and> n \<le> 90) \<or> (192 \<le> n \<and> n \<le> 222 \<and> n \<noteq> 215)
         then char_of (n + 32) else c)"

definition lower :: "string \<Rightarrow> string" where
  "lower s = map lower_char s"

section \<open>\<open>int\<close> of a string\<close>

text \<open>
  \<open>py_int s\<close> is \<open>int(s)\<close> for a string. The whitespace \<open>int\<close> drops around the
  number is not that of \<open>str.strip\<close>: it is the tabulator, line feed, vertical
  tabulator, form feed, carriage return and space, and the two code points 133 and 160,
  which \<open>int\<close> first turns into spaces; the separators 28 to 31 are not dropped. One
  sign is allowed, then decimal digits, with single underscores allowed between digits,
  and at most \<open>int_max_str_digits\<close> digits, the limit of the interpreter (4300 unless
  configured otherwise); anything else raises \<open>ValueError\<close>. \<open>int\<close> of a list raises
  \<open>TypeError\<close>.
\<close>

definition int_isspace :: "char \<Rightarrow> bool" where
  "int_isspace c = (c \<in> set [CHR 0x09, CHR 0x0A, CHR 0x0B, CHR 0x0C, CHR 0x0D, CHR 0x20,
                               CHR 0x85, CHR 0xA0])"

definition int_max_str_digits :: nat where
  "int_max_str_digits = 4300"

definition is_digit :: "char \<Rightarrow> bool" where
  "is_digit c = (CHR ''0'' \<le> c \<and> c \<le> CHR ''9'')"

fun digits_ok :: "string \<Rightarrow> bool" where
  "digits_ok [] = False"
| "digits_ok [c] = is_digit c"
| "digits_ok (c # d # cs) =
     (is_digit c \<and> (if d = CHR ''_'' then digits_ok cs else digits_ok (d # cs)))"

fun digits_value :: "string \<Rightarrow> int \<Rightarrow> int" where
  "digits_value [] acc = acc"
| "digits_value (c # cs) acc =
     (if c = CHR ''_'' then digits_value cs acc
      else digits_value cs (10 * acc + (int (of_char c) - 48)))"

definition py_int :: "string \<Rightarrow> py_error + int" where
  "py_int s =
     (let t = rev (dropWhile int_isspace (rev (dropWhile int_isspace s)));
          body = (if startswith t CHR ''-'' \<or> startswith t CHR ''+'' then tl t else t)
      in if digits_ok body \<and> length (filter is_digit body) \<le> int_max_str_digits
         then Inr (if startswith t CHR ''-'' then - digits_value body 0 else digits_value body 0)
         else Inl ValueError)"

fun py_int_attr :: "attr_value option \<Rightarrow> py_error + int" where
  "py_int_attr None = Inl KeyError"
| "py_int_attr (Some (Str s)) = py_int s"
| "py_int_attr (Some (Toks ts)) = Inl TypeError"

section \<open>\<open>find_above_fold_elements\<close>\<close>

text \<open>The two tests given as \<open>class_\<close>: \<open>c and (...)\<close> is false on \<open>None\<close> and on the empty string.\<close>

definition hero_or_banner :: "string option \<Rightarrow> bool" where
  "hero_or_banner c =
     (case c of None \<Rightarrow> False
      | Some s \<Rightarrow> s \<noteq> [] \<and> (str_in ''hero'' (lower s) \<or> str_in ''banner'' (lower s)))"

definition section_class :: "string option \<Rightarrow> bool" where
  "section_class c =
     (case c of None \<Rightarrow> False | Some s \<Rightarrow> s \<noteq> [] \<and> str_in ''section'' (lower s))"

text \<open>
  The sort key of an image, \<open>int(img['width']) * int(img['height'])\<close>, with the
  exception either conversion raises.
\<close>

definition area_key :: "node \<Rightarrow> py_error + int" where
  "area_key img =
     (case py_int_attr (get_attr img ''width'') of
        Inl e \<Rightarrow> Inl e
      | Inr w \<Rightarrow> (case py_int_attr (get_attr img ''height'') of
                    Inl e \<Rightarrow> Inl e
                  | Inr h \<Rightarrow> Inr (w * h)))"

text \<open>
  \<open>list.sort(key=..., reverse=True)\<close> computes the key of every element first, in list
  order, and raises what the first failing key raises; it then sorts stably in
  descending order of key, elements with equal keys keeping their order: the list is
  reversed, sorted stably in ascending order, and reversed again.
\<close>

fun keys_of :: "('a \<Rightarrow> py_error + int) \<Rightarrow> 'a list \<Rightarrow> py_error + (int \<times> 'a) list" where
  "keys_of key [] = Inr []"
| "keys_of key (x # xs) =
     (case key x of
        Inl e \<Rightarrow> Inl e
      | Inr k \<Rightarrow> (case keys_of key xs of Inl e \<Rightarrow> Inl e | Inr ks \<Rightarrow> Inr ((k, x) # ks)))"

definition sort_reverse :: "('a \<Rightarrow> py_error + int) \<Rightarrow> 'a list \<Rightarrow> py_error + 'a list" where
  "sort_reverse key xs =
     (case keys_of key xs of
        Inl e \<Rightarrow> Inl e
      | Inr ks \<Rightarrow> Inr (map snd (rev (sort_key fst (rev ks)))))"

definition find_above_fold_elements :: "node \<Rightarrow> py_error + node list" where
  "find_above_fold_elements soup =
     (let above_fold_elements = find_all (name_in [''header'', ''nav'']) soup;
          hero_sections = find_all (attr_matches hero_or_banner ''class'') soup;
          above_fold_elements = above_fold_elements @ hero_sections;
          sections = find_all (\<lambda>e. name_in [''section'', ''div''] e
                                    \<and> attr_matches section_class ''class'' e) soup;
          above_fold_elements =
            (if sections \<noteq> [] then above_fold_elements @ take 3 sections
             else above_fold_elements);
          lcp_candidates = find_all (name_in [''img'']) soup
      in if lcp_candidates \<noteq> [] then
           (let sized_images =
                  filter (\<lambda>img. has_attr img ''width'' \<and> has_attr img ''height'') lcp_candidates
            in if sized_images \<noteq> [] then
                 (case sort_reverse area_key sized_images of
                    Inl e \<Rightarrow> Inl e
                  | Inr sorted_images \<Rightarrow>
                      (case sorted_images of
                         [] \<Rightarrow> Inl IndexError
                       | img # _ \<Rightarrow> Inr (above_fold_elements @ [img])))
               else Inr above_fold_elements)
         else Inr above_fold_elements)"

section \<open>Python objects: identity and mutation\<close>

text \<open>
  \<open>_optimize_html\<close> mutates tags through references, so the objects it can reach are
  kept together: \<open>self_dom\<close> is the tree of \<open>self.dom\<close>, \<open>optimized_dom\<close> is the tree
  of the local variable of that name, and \<open>next_id\<close> is the identity the next new
  object gets. A write to the object of identity \<open>i\<close> is made wherever that object is,
  in either tree (\<open>modify\<close>). A tag that has just been made by \<open>new_tag\<close> and is not
  yet inserted is referenced by nothing in the trees; it is a value, completed by
  \<open>with_attr\<close> and \<open>with_child\<close> and then inserted.
\<close>

record objects =
  self_dom :: node
  optimized_dom :: node
  next_id :: nat

fun children :: "node \<Rightarrow> node list" where
  "children (Tag i n a cs) = cs"
| "children (NavigableString i s) = []"

fun update_at :: "nat \<Rightarrow> (node \<Rightarrow> node) \<Rightarrow> node \<Rightarrow> node" where
  "update_at i f (Tag j n a cs) =
     (if j = i then f (Tag j n a cs) else Tag j n a (map (update_at i f) cs))"
| "update_at i f (NavigableString j s) = NavigableString j s"

fun with_attr :: "string \<Rightarrow> attr_value \<Rightarrow> node \<Rightarrow> node" where
  "with_attr k v (Tag i n a cs) = Tag i n (AList.update k v a) cs"
| "with_attr k v (NavigableString i s) = NavigableString i s"

fun with_child :: "node \<Rightarrow> node \<Rightarrow> node" where
  "with_child c (Tag i n a cs) = Tag i n a (cs @ [c])"
| "with_child c (NavigableString i s) = NavigableString i s"

fun with_first_child :: "node \<Rightarrow> node \<Rightarrow> node" where
  "with_first_child c (Tag i n a cs) = Tag i n a (c # cs)"
| "with_first_child c (NavigableString i s) = NavigableString i s"

fun remove_child :: "nat \<Rightarrow> node \<Rightarrow> node" where
  "remove_child i (Tag j n a cs) =
     Tag j n a (map (remove_child i) (filter (\<lambda>c. ident c \<noteq> i) cs))"
| "remove_child i (NavigableString j s) = NavigableString j s"

fun insert_after_in :: "nat \<Rightarrow> node \<Rightarrow> node \<Rightarrow> node" where
  "insert_after_in l new (Tag j n a cs) =
     Tag j n a (concat (map (\<lambda>c. if ident c = l then [c, new]
                                    else [insert_after_in l new c]) cs))"
| "insert_after_in l new (NavigableString j s) = NavigableString j s"

definition lookup :: "nat \<Rightarrow> node \<Rightarrow> node option" where
  "lookup i t = find (\<lambda>e. ident e = i) (t # descendants t)"

definition parent_in :: "nat \<Rightarrow> node \<Rightarrow> node option" where
  "parent_in i t = find (\<lambda>p. i \<in> set (map ident (children p))) (t # descendants t)"

definition modify :: "(node \<Rightarrow> node) \<Rightarrow> objects \<Rightarrow> objects" where
  "modify f st = st\<lparr>self_dom := f (self_dom st), optimized_dom := f (optimized_dom st)\<rparr>"

definition deref :: "objects \<Rightarrow> nat \<Rightarrow> node option" where
  "deref st i =
     (case lookup i (self_dom st) of
        Some e \<Rightarrow> Some e
      | None \<Rightarrow> lookup i (optimized_dom st))"

definition parent_of :: "objects \<Rightarrow> nat \<Rightarrow> node option" where
  "parent_of st i =
     (case parent_in i (self_dom st) of
        Some p \<Rightarrow> Some p
      | None \<Rightarrow> parent_in i (optimized_dom st))"

text \<open>The operations of the library on tags, by identity.\<close>

definition set_attr :: "nat \<Rightarrow> string \<Rightarrow> attr_value \<Rightarrow> objects \<Rightarrow> objects" where
  "set_attr i k v st = modify (update_at i (with_attr k v)) st"

definition insert_first :: "nat \<Rightarrow> node \<Rightarrow> objects \<Rightarrow> objects" where
  "insert_first i c st = modify (update_at i (with_first_child c)) st"

definition append_child :: "nat \<Rightarrow> node \<Rightarrow> objects \<Rightarrow> objects" where
  "append_child i c st = modify (update_at i (with_child c)) st"

definition insert_after :: "nat \<Rightarrow> node \<Rightarrow> objects \<Rightarrow> objects" where
  "insert_after l c st = modify (insert_after_in l c) st"

definition extract_tag :: "nat \<Rightarrow> objects \<Rightarrow> objects" where
  "extract_tag i st = modify (remove_child i) st"

definition new_tag :: "string \<Rightarrow> objects \<Rightarrow> node \<times> objects" where
  "new_tag n st = (Tag (next_id st) n [] [], st\<lparr>next_id := Suc (next_id st)\<rparr>)"

definition new_string :: "string \<Rightarrow> objects \<Rightarrow> node \<times> objects" where
  "new_string s st = (NavigableString (next_id st) s, st\<lparr>next_id := Suc (next_id st)\<rparr>)"

text \<open>
  \<open>same_tag\<close> is \<open>Tag.__eq__\<close>: the same name, equal attribute dictionaries and
  pairwise equal contents; strings compare by their text. \<open>elem_eq\<close> is \<open>a == b\<close> for
  two references, on the objects as they are now.
\<close>

definition dict_eq :: "(string \<times> attr_value) list \<Rightarrow> (string \<times> attr_value) list \<Rightarrow> bool" where
  "dict_eq a b = (\<forall>k \<in> set (map fst a @ map fst b). map_of a k = map_of b k)"

fun same_tag :: "node \<Rightarrow> node \<Rightarrow> bool" where
  "same_tag (Tag i n a cs) (Tag j m b ds) =
     (n = m \<and> dict_eq a b \<and> list_all2 same_tag cs ds)"
| "same_tag (NavigableString i s) (NavigableString j t) = (s = t)"
| "same_tag (Tag i n a cs) (NavigableString j t) = False"
| "same_tag (NavigableString i s) (Tag j m b ds) = False"

definition elem_eq :: "objects \<Rightarrow> nat \<Rightarrow> nat \<Rightarrow> bool" where
  "elem_eq st a b =
     (a = b \<or> (case (deref st a, deref st b) of
                  (Some x, Some y) \<Rightarrow> same_tag x y
                | _ \<Rightarrow> False))"

text \<open>
  The copy \<open>BeautifulSoup(str(self.dom), 'html.parser')\<close>: the parser builds new
  objects. What tree it builds from the text of \<open>self.dom\<close> is the library's affair
  and is a parameter, \<open>reparse\<close>; \<open>relabel\<close> gives its nodes their new identities,
  in document order.
\<close>

fun relabel :: "nat \<Rightarrow> node \<Rightarrow> node \<times> nat"
  and relabel_list :: "nat \<Rightarrow> node list \<Rightarrow> node list \<times> nat" where
  "relabel n (Tag i nm a cs) =
     (case relabel_list (Suc n) cs of (cs', n') \<Rightarrow> (Tag n nm a cs', n'))"
| "relabel n (NavigableString i s) = (NavigableString n s, Suc n)"
| "relabel_list n [] = ([], n)"
| "relabel_list n (c # cs) =
     (case relabel n c of
        (c', n1) \<Rightarrow> (case relabel_list n1 cs of (cs', n2) \<Rightarrow> (c' # cs', n2)))"

definition copy_dom :: "(node \<Rightarrow> node) \<Rightarrow> node \<Rightarrow> nat \<Rightarrow> objects" where
  "copy_dom reparse soup n =
     (case relabel n (reparse soup) of
        (optimized, n') \<Rightarrow> \<lparr>self_dom = soup, optimized_dom = optimized, next_id = n'\<rparr>)"

section \<open>\<open>_optimize_html\<close>\<close>

text \<open>
  A resource is one dictionary of \<open>self.resources\<close>: its \<open>element\<close> is a reference to
  a tag of \<open>self.dom\<close>; \<open>local_path\<close>, \<open>width\<close>, \<open>height\<close> and \<open>webp_path\<close> are
  present once the download and the image step have stored them. The fields of
  \<open>resources\<close> are the lists under the keys \<open>css\<close>, \<open>js\<close>, \<open>images\<close> and
  \<open>fonts\<close>.
\<close>

record resource =
  url :: string
  element :: nat
  local_path :: "string option"
  width :: "int option"
  height :: "int option"
  webp_path :: "string option"

record resources =
  res_css :: "resource list"
  res_js :: "resource list"
  res_images :: "resource list"
  res_fonts :: "resource list"

text \<open>\<open>py_str\<close> is \<open>str\<close> of an integer.\<close>

function nat_digits :: "nat \<Rightarrow> string" where
  "nat_digits n =
     (if n < 10 then [char_of (48 + n)]
      else nat_digits (n div 10) @ [char_of (48 + n mod 10)])"
  by pat_completeness auto
termination
  by (relation "measure id") auto

declare nat_digits.simps [simp del]

definition py_str :: "int \<Rightarrow> string" where
  "py_str i = (if i < 0 then CHR ''-'' # nat_digits (nat (- i)) else nat_digits (nat i))"

text \<open>
  The tests of \<open>find_all\<close>: \<open>rel='stylesheet'\<close> holds when a token of the attribute, or
  the attribute as one string, is the given string; \<open>src=True\<close> when the attribute is
  present. \<open>truthy\<close> is the truth value of an attribute value.
\<close>

definition attr_is :: "string \<Rightarrow> string \<Rightarrow> node \<Rightarrow> bool" where
  "attr_is k v e =
     (case get_attr e k of
        None \<Rightarrow> False
      | Some (Str s) \<Rightarrow> s = v
      | Some (Toks ts) \<Rightarrow> v \<in> set ts \<or> join_tokens ts = v)"

fun truthy :: "attr_value option \<Rightarrow> bool" where
  "truthy None = False"
| "truthy (Some (Str s)) = (s \<noteq> [])"
| "truthy (Some (Toks ts)) = (ts \<noteq> [])"

text \<open>Step 1: find or create the head element; the result is the reference \<open>head\<close>.\<close>

definition ensure_head :: "objects \<Rightarrow> nat \<times> objects" where
  "ensure_head st =
     (case find_all (name_in [''head'']) (optimized_dom st) of
        head # _ \<Rightarrow> (ident head, st)
      | [] \<Rightarrow>
          (case new_tag ''head'' st of
             (head, st) \<Rightarrow>
               (case find_all (name_in [''html'']) (optimized_dom st) of
                  html # _ \<Rightarrow> (ident head, insert_first (ident html) head st)
                | [] \<Rightarrow>
                    (case new_tag ''html'' st of
                       (html, st) \<Rightarrow>
                         (ident head,
                          append_child (ident (optimized_dom st)) (with_child head html) st)))))"

text \<open>
  Step 2: the style tag with the critical CSS, first in the head. \<open>critical\<close> is the
  text of the file when \<open>"critical"\<close> is a key of the optimized CSS resources.
\<close>

definition inline_critical_css :: "string option \<Rightarrow> nat \<Rightarrow> objects \<Rightarrow> objects" where
  "inline_critical_css critical head st =
     (case critical of
        None \<Rightarrow> st
      | Some critical_css \<Rightarrow>
          (case new_tag ''style'' st of
             (style, st) \<Rightarrow>
               (case new_string critical_css st of
                  (text_node, st) \<Rightarrow> insert_first head (with_child text_node style) st)))"

text \<open>
  Steps 3 and 5: the inner loop over the resources of a link or of a script, which
  stores the local path when the resource's element equals the tag as it is now.
\<close>

fun use_local_path :: "string \<Rightarrow> nat \<Rightarrow> resource list \<Rightarrow> objects \<Rightarrow> objects" where
  "use_local_path k tag [] st = st"
| "use_local_path k tag (r # rs) st =
     (if elem_eq st (element r) tag \<and> local_path r \<noteq> None
      then use_local_path k tag rs (set_attr tag k (Str (the (local_path r))) st)
      else use_local_path k tag rs st)"

definition onload_handler :: string where
  "onload_handler = ''this.onload=null;this.rel='stylesheet'' @ [CHR 0x27]"

fun preload_links :: "resource list \<Rightarrow> nat list \<Rightarrow> objects \<Rightarrow> objects" where
  "preload_links rs [] st = st"
| "preload_links rs (link # links) st =
     preload_links rs links
       (use_local_path ''href'' link rs
          (set_attr link ''onload'' (Str onload_handler)
             (set_attr link ''as'' (Str ''style'')
                (set_attr link ''rel'' (Str ''preload'') st))))"

text \<open>
  Step 4: the noscript fallback of each link. \<open>link['href']\<close> raises \<open>KeyError\<close> when
  the link has no such attribute; \<open>insert_after\<close> raises \<open>ValueError\<close> on a tag without
  a parent. The objects are returned as they are when the exception leaves the loop.
\<close>

fun noscript_fallbacks :: "nat list \<Rightarrow> objects \<Rightarrow> py_error option \<times> objects" where
  "noscript_fallbacks [] st = (None, st)"
| "noscript_fallbacks (link # links) st =
     (case new_tag ''noscript'' st of
        (noscript, st) \<Rightarrow>
          (case new_tag ''link'' st of
             (fallback_link, st) \<Rightarrow>
               (case Option.bind (deref st link) (\<lambda>l. get_attr l ''href'') of
                  None \<Rightarrow> (Some KeyError, st)
                | Some href \<Rightarrow>
                    (case parent_of st link of
                       None \<Rightarrow> (Some ValueError, st)
                     | Some p \<Rightarrow>
                         noscript_fallbacks links
                           (insert_after link
                              (with_child
                                 (with_attr ''href'' href
                                    (with_attr ''rel'' (Str ''stylesheet'') fallback_link))
                                 noscript)
                              st)))))"

fun defer_scripts :: "resource list \<Rightarrow> nat list \<Rightarrow> objects \<Rightarrow> objects" where
  "defer_scripts rs [] st = st"
| "defer_scripts rs (script # scripts) st =
     defer_scripts rs scripts
       (use_local_path ''src'' script rs
          (if Option.bind (deref st script) (\<lambda>t. get_attr t ''async'') = None
           then set_attr script ''defer'' (Str [])
                  st
           else st))"

text \<open>
  Step 6, the images. \<open>previous_sibling_tags st i\<close> is
  \<open>find_previous_siblings()\<close> of the tag \<open>i\<close>: the tags before it among the children
  of its parent, nearest first. The length of the text of that list,
  \<open>len(str(...))\<close>, is the library's affair and is the parameter \<open>str_len\<close>.
\<close>

definition previous_sibling_tags :: "objects \<Rightarrow> nat \<Rightarrow> node list" where
  "previous_sibling_tags st i =
     (case parent_of st i of
        None \<Rightarrow> []
      | Some g \<Rightarrow> filter is_tag (rev (takeWhile (\<lambda>c. ident c \<noteq> i) (children g))))"

definition viewport_height :: nat where
  "viewport_height = 800"

text \<open>
  The picture element around an image with a WebP version: the image is extracted
  from its parent, put into a new picture after a new source, and the picture is
  appended to the former parent.
\<close>

definition wrap_in_picture :: "string \<Rightarrow> nat \<Rightarrow> objects \<Rightarrow> objects" where
  "wrap_in_picture webp img st =
     (case new_tag ''picture'' st of
        (picture, st) \<Rightarrow>
          (case new_tag ''source'' st of
             (source, st) \<Rightarrow>
               (let source = with_attr ''type'' (Str ''image/webp'')
                               (with_attr ''srcset'' (Str webp) source);
                    parent_node = parent_of st img;
                    img_copy = deref st img;
                    st = extract_tag img st;
                    picture = with_child source picture;
                    picture = (case img_copy of
                                 None \<Rightarrow> picture
                               | Some t \<Rightarrow> with_child t picture)
                in case parent_node of
                     None \<Rightarrow> st
                   | Some p \<Rightarrow> append_child (ident p) picture st)))"

text \<open>
  The body of the inner loop for a resource that matches the image \<open>img\<close>, at the
  estimated position \<open>position\<close>; it carries the objects, \<open>lcp_candidate\<close> and
  \<open>largest_area\<close>. \<open>record_dimensions\<close> is the block under
  \<open>if "width" in resource and "height" in resource\<close>.
\<close>

definition record_dimensions ::
  "nat \<Rightarrow> nat \<Rightarrow> int \<Rightarrow> int \<Rightarrow> objects \<times> nat option \<times> int \<Rightarrow> objects \<times> nat option \<times> int" where
  "record_dimensions img position w h s =
     (case s of
        (st, lcp_candidate, largest_area) \<Rightarrow>
          (let st = set_attr img ''height'' (Str (py_str h))
                      (set_attr img ''width'' (Str (py_str w)) st);
               area = w * h
           in if position < viewport_height \<and> largest_area < area
              then (st, Some img, area)
              else (st, lcp_candidate, largest_area)))"

definition image_resource_step ::
  "nat \<Rightarrow> nat \<Rightarrow> resource \<Rightarrow> objects \<times> nat option \<times> int \<Rightarrow> objects \<times> nat option \<times> int" where
  "image_resource_step img position r s =
     (case s of
        (st, lcp_candidate, largest_area) \<Rightarrow>
          (case (case (width r, height r) of
                   (Some w, Some h) \<Rightarrow>
                     record_dimensions img position w h
                       (set_attr img ''src'' (Str (the (local_path r))) st,
                        lcp_candidate, largest_area)
                 | _ \<Rightarrow> (set_attr img ''src'' (Str (the (local_path r))) st,
                          lcp_candidate, largest_area)) of
             (st, lcp_candidate, largest_area) \<Rightarrow>
               (case webp_path r of
                  None \<Rightarrow> (st, lcp_candidate, largest_area)
                | Some webp \<Rightarrow> (wrap_in_picture webp img st, lcp_candidate, largest_area))))"

fun image_resource_loop ::
  "nat \<Rightarrow> nat \<Rightarrow> resource list \<Rightarrow> objects \<times> nat option \<times> int
     \<Rightarrow> objects \<times> nat option \<times> int" where
  "image_resource_loop img position [] s = s"
| "image_resource_loop img position (r # rs) s =
     image_resource_loop img position rs
       (if elem_eq (fst s) (element r) img \<and> local_path r \<noteq> None
        then image_resource_step img position r s
        else s)"

fun images_loop ::
  "(node list \<Rightarrow> nat) \<Rightarrow> resource list \<Rightarrow> nat list \<Rightarrow> objects \<times> nat option \<times> int
     \<Rightarrow> objects \<times> nat option \<times> int" where
  "images_loop str_len rs [] s = s"
| "images_loop str_len rs (img # imgs) s =
     (case parent_of (fst s) img of
        None \<Rightarrow> images_loop str_len rs imgs s
      | Some parent \<Rightarrow>
          images_loop str_len rs imgs
            (image_resource_loop img
               (str_len (previous_sibling_tags (fst s) (ident parent))) rs s))"

text \<open>The fetch priority and the preload hint of the LCP candidate.\<close>

definition mark_lcp :: "nat \<Rightarrow> nat option \<Rightarrow> objects \<Rightarrow> objects" where
  "mark_lcp head lcp_candidate st =
     (case lcp_candidate of
        None \<Rightarrow> st
      | Some c \<Rightarrow>
          (let st = set_attr c ''fetchpriority'' (Str ''high'') st;
               lcp_src = Option.bind (deref st c) (\<lambda>t. get_attr t ''src'')
           in if truthy lcp_src then
                (case new_tag ''link'' st of
                   (preload, st) \<Rightarrow>
                     insert_first head
                       (with_attr ''as'' (Str ''image'')
                          (with_attr ''href'' (the lcp_src)
                             (with_attr ''rel'' (Str ''preload'') preload)))
                       st)
              else st))"

text \<open>\<open>img != lcp_candidate\<close> is true when there is no candidate.\<close>

fun lazy_images :: "nat option \<Rightarrow> nat list \<Rightarrow> objects \<Rightarrow> objects" where
  "lazy_images lcp_candidate [] st = st"
| "lazy_images lcp_candidate (img # imgs) st =
     lazy_images lcp_candidate imgs
       (if (case lcp_candidate of None \<Rightarrow> True | Some c \<Rightarrow> \<not> elem_eq st img c)
        then set_attr img ''loading'' (Str ''lazy'') st
        else st)"

text \<open>
  Step 7. \<open>netloc\<close> is \<open>urlparse(url).netloc\<close>, a parameter. \<open>added_domains\<close> are
  the domains in the order in which the loops add them to the set
  \<open>external_domains\<close>, over the resource lists in the order of the dictionary. The
  order in which Python then iterates the set depends on the hashes of the strings; it
  is the parameter \<open>set_order\<close>, which gives, for the domains as added, the members of
  the set in the order of iteration.
\<close>

definition added_domains :: "(string \<Rightarrow> string) \<Rightarrow> resources \<Rightarrow> string list" where
  "added_domains netloc rs =
     filter (\<lambda>d. d \<noteq> [])
       (map (\<lambda>r. netloc (url r))
          (res_css rs @ res_js rs @ res_images rs @ res_fonts rs))"

fun resource_hints :: "nat \<Rightarrow> string list \<Rightarrow> objects \<Rightarrow> objects" where
  "resource_hints head [] st = st"
| "resource_hints head (domain # domains) st =
     (case new_tag ''link'' st of
        (preconnect, st) \<Rightarrow>
          (let st = insert_first head
                      (with_attr ''crossorigin'' (Str [])
                         (with_attr ''href'' (Str (''https://'' @ domain))
                            (with_attr ''rel'' (Str ''preconnect'') preconnect)))
                      st
           in case new_tag ''link'' st of
                (dns_prefetch, st) \<Rightarrow>
                  resource_hints head domains
                    (insert_first head
                       (with_attr ''href'' (Str (''https://'' @ domain))
                          (with_attr ''rel'' (Str ''dns-prefetch'') dns_prefetch))
                       st)))"

definition add_cache_meta :: "nat \<Rightarrow> objects \<Rightarrow> objects" where
  "add_cache_meta head st =
     (case new_tag ''meta'' st of
        (cache_manifest, st) \<Rightarrow>
          append_child head
            (with_attr ''content'' (Str ''max-age=31536000'')
               (with_attr ''http-equiv'' (Str ''Cache-Control'') cache_manifest))
            st)"

text \<open>
  The whole function, for \<open>self.dom\<close> already fetched, the tree \<open>soup\<close>, and \<open>n\<close>
  the identity of the next new object. The result is the exception that left the function, if any, the
  objects at that moment or at the end, and \<open>lcp_candidate\<close>. The final write of the
  text of \<open>optimized_dom\<close> to a file changes no object and is left out.
\<close>

definition optimize_html ::
  "(node \<Rightarrow> node) \<Rightarrow> (node list \<Rightarrow> nat) \<Rightarrow> (string \<Rightarrow> string)
     \<Rightarrow> (string list \<Rightarrow> string list) \<Rightarrow> resources \<Rightarrow> string option
     \<Rightarrow> node \<Rightarrow> nat \<Rightarrow> py_error option \<times> objects \<times> nat option" where
  "optimize_html reparse str_len netloc set_order rs critical soup n =
     (let st = copy_dom reparse soup n
      in case ensure_head st of
           (head, st) \<Rightarrow>
             (let st = inline_critical_css critical head st;
                  css_links = map ident
                    (find_all (\<lambda>e. name_in [''link''] e \<and> attr_is ''rel'' ''stylesheet'' e)
                       (optimized_dom st));
                  st = preload_links (res_css rs) css_links st
              in case noscript_fallbacks css_links st of
                   (Some e, st) \<Rightarrow> (Some e, st, None)
                 | (None, st) \<Rightarrow>
                     (let scripts = map ident
                            (find_all (\<lambda>e. name_in [''script''] e \<and> has_attr e ''src'')
                               (optimized_dom st));
                          st = defer_scripts (res_js rs) scripts st;
                          images = map ident
                            (find_all (\<lambda>e. name_in [''img''] e \<and> has_attr e ''src'')
                               (optimized_dom st));
                          (st, lcp_candidate, largest_area) =
                            images_loop str_len (res_images rs) images (st, None, 0);
                          st = mark_lcp head lcp_candidate st;
                          st = lazy_images lcp_candidate images st;
                          st = resource_hints head (set_order (added_domains netloc rs)) st;
                          st = add_cache_meta head st
                      in (None, st, lcp_candidate))))"

section \<open>Notions used to state the properties\<close>

text \<open>
  A match of the rule pattern is an at-rule when its trimmed selector text begins with
  \<open>@\<close>; \<open>selector_parts_of\<close> is its list of trimmed, comma-separated selectors;
  \<open>has_critical_part\<close> says that one of them is in the critical set; \<open>all_rules\<close> is
  the sequence of matches over all stylesheets, in stylesheet and rule order;
  \<open>format_match\<close> is the text emitted for a match.
\<close>

definition at_rule :: "string \<times> string \<Rightarrow> bool" where
  "at_rule m = startswith (strip (fst m)) CHR ''@''"

definition selector_parts_of :: "string \<times> string \<Rightarrow> string list" where
  "selector_parts_of m = map strip (split_on CHR '','' (strip (fst m)))"

definition has_critical_part :: "string set \<Rightarrow> string \<times> string \<Rightarrow> bool" where
  "has_critical_part crit m = (\<exists>s \<in> set (selector_parts_of m). s \<in> crit)"

definition all_rules :: "(string \<times> string) list \<Rightarrow> (string \<times> string) list" where
  "all_rules css_contents = concat (map (\<lambda>sheet. findall_rules (snd sheet)) css_contents)"

definition format_match :: "string \<times> string \<Rightarrow> string" where
  "format_match m = format_rule (strip (fst m)) (snd m)"

text \<open>
  \<open>tags\<close> is the list of the elements of a document in document order.
  \<open>class_token_contains words e\<close> says that a token of the class attribute of \<open>e\<close>
  contains one of the words, letter case apart. \<open>sized_images\<close> are the \<open>img\<close>
  elements that carry both a \<open>width\<close> and a \<open>height\<close> attribute, \<open>attr_area\<close> is the
  product of the two as integers. \<open>first_max f xs\<close> is the first element of \<open>xs\<close>
  among those of largest \<open>f\<close>, and \<open>last_max\<close> the last one. \<open>landmarks\<close> are the
  elements of the first three steps of the above-fold heuristic.
\<close>

definition tags :: "node \<Rightarrow> node list" where
  "tags soup = filter is_tag (descendants soup)"

definition class_token_contains :: "string list \<Rightarrow> node \<Rightarrow> bool" where
  "class_token_contains words e =
     (case get_attr e ''class'' of
        None \<Rightarrow> False
      | Some (Str s) \<Rightarrow> \<exists>w \<in> set words. str_in w (lower s)
      | Some (Toks ts) \<Rightarrow> \<exists>t \<in> set ts. \<exists>w \<in> set words. str_in w (lower t))"

definition sized_images :: "node \<Rightarrow> node list" where
  "sized_images soup =
     filter (\<lambda>img. name img = ''img'' \<and> has_attr img ''width'' \<and> has_attr img ''height'')
       (tags soup)"

definition attr_area :: "node \<Rightarrow> int" where
  "attr_area img = (case area_key img of Inl e \<Rightarrow> 0 | Inr a \<Rightarrow> a)"

fun first_max :: "('a \<Rightarrow> int) \<Rightarrow> 'a list \<Rightarrow> 'a option" where
  "first_max f [] = None"
| "first_max f (x # xs) =
     (case first_max f xs of
        None \<Rightarrow> Some x
      | Some y \<Rightarrow> if f x < f y then Some y else Some x)"

definition landmarks :: "node \<Rightarrow> node list" where
  "landmarks soup =
     filter (name_in [''header'', ''nav'']) (tags soup)
     @ filter (class_token_contains [''hero'', ''banner'']) (tags soup)
     @ take 3 (filter (\<lambda>e. name_in [''section'', ''div''] e
                            \<and> class_token_contains [''section''] e) (tags soup))"

fun last_max :: "('a \<Rightarrow> int) \<Rightarrow> 'a list \<Rightarrow> 'a option" where
  "last_max f [] = None"
| "last_max f (x # xs) =
     (case last_max f xs of
        None \<Rightarrow> Some x
      | Some y \<Rightarrow> if f y < f x then Some x else Some y)"

definition example_page :: node where
  "example_page = Tag 0 ''[document]'' []
     [Tag 1 ''header'' [(''class'', Toks [''site'', ''Big-HERO''])]
        [Tag 2 ''img'' [(''src'', Str ''a.png'')] [],
         Tag 3 ''img'' [(''width'', Str ''100''), (''height'', Str ''100'')] []],
      NavigableString 4 ''text'',
      Tag 5 ''div'' [(''class'', Toks [''a-SECTION''])]
        [Tag 6 ''img'' [(''width'', Str ''500''), (''height'', Str ''50'')] [],
         Tag 7 ''img'' [(''width'', Str ''250''), (''height'', Str ''100'')] []]]"

text \<open>
  \<open>idents\<close> are the identities of the objects of a tree. \<open>separated n0\<close> says that
  the objects of \<open>self.dom\<close> have identities below \<open>n0\<close> and all other objects, and
  the objects still to be made, identities from \<open>n0\<close> on; \<open>kept n0 st0 st\<close> adds
  that \<open>self.dom\<close> is in \<open>st\<close> what it was in \<open>st0\<close>. \<open>lcp_above\<close> and \<open>kept3\<close>
  extend this to the state of the image loop.
\<close>

fun idents :: "node \<Rightarrow> nat set" where
  "idents (Tag i n a cs) = insert i (\<Union>c \<in> set cs. idents c)"
| "idents (NavigableString i s) = {i}"

definition separated :: "nat \<Rightarrow> objects \<Rightarrow> bool" where
  "separated n0 st =
     ((\<forall>i \<in> idents (self_dom st). i < n0) \<and> (\<forall>i \<in> idents (optimized_dom st). n0 \<le> i)
      \<and> n0 \<le> next_id st)"

definition kept :: "nat \<Rightarrow> objects \<Rightarrow> objects \<Rightarrow> bool" where
  "kept n0 st0 st = (self_dom st = self_dom st0 \<and> separated n0 st)"

definition lcp_above :: "nat \<Rightarrow> nat option \<Rightarrow> bool" where
  "lcp_above n0 l = (case l of None \<Rightarrow> True | Some c \<Rightarrow> n0 \<le> c)"

definition kept3 :: "nat \<Rightarrow> objects \<Rightarrow> objects \<times> nat option \<times> int \<Rightarrow> bool" where
  "kept3 n0 st0 s = (kept n0 st0 (fst s) \<and> lcp_above n0 (fst (snd s)))"

text \<open>
  \<open>recorded_area rs a\<close>: some resource of \<open>rs\<close> with a local path has a recorded
  width and height of product \<open>a\<close>. \<open>lcp_justified\<close> is the invariant of the image
  loop: \<open>largest_area\<close> is not negative, and when there is a candidate it is positive
  and is such a recorded area.
\<close>

definition recorded_area :: "resource list \<Rightarrow> int \<Rightarrow> bool" where
  "recorded_area rs a =
     (\<exists>r \<in> set rs. local_path r \<noteq> None
          \<and> (\<exists>w h. width r = Some w \<and> height r = Some h \<and> a = w * h))"

definition lcp_justified :: "resource list \<Rightarrow> objects \<times> nat option \<times> int \<Rightarrow> bool" where
  "lcp_justified rs s =
     (0 \<le> snd (snd s) \<and>
      (fst (snd s) \<noteq> None \<longrightarrow> 0 < snd (snd s) \<and> recorded_area rs (snd (snd s))))"

text \<open>
  \<open>compared_areas\<close> lists, in the order of the scan of the image loop started in a
  given state, the pairs of an image and a recorded area that the loop compares with
  \<open>largest_area\<close>: one pair for each resource that equals the image as it is then,
  has a local path and a recorded width and height, when the estimated position of the
  image is below the viewport height. \<open>scan_areas\<close> is the comparison
  \<open>area > largest_area\<close> run over such a list.
\<close>

fun compared_in_resources ::
  "nat \<Rightarrow> nat \<Rightarrow> resource list \<Rightarrow> objects \<times> nat option \<times> int \<Rightarrow> (nat \<times> int) list" where
  "compared_in_resources img position [] s = []"
| "compared_in_resources img position (r # rs) s =
     (if elem_eq (fst s) (element r) img \<and> local_path r \<noteq> None
      then (case (width r, height r) of
              (Some w, Some h) \<Rightarrow> if position < viewport_height then [(img, w * h)] else []
            | _ \<Rightarrow> [])
           @ compared_in_resources img position rs (image_resource_step img position r s)
      else compared_in_resources img position rs s)"

fun compared_areas ::
  "(node list \<Rightarrow> nat) \<Rightarrow> resource list \<Rightarrow> nat list \<Rightarrow> objects \<times> nat option \<times> int
     \<Rightarrow> (nat \<times> int) list" where
  "compared_areas str_len rs [] s = []"
| "compared_areas str_len rs (img # imgs) s =
     (case parent_of (fst s) img of
        None \<Rightarrow> compared_areas str_len rs imgs s
      | Some parent \<Rightarrow>
          compared_in_resources img (str_len (previous_sibling_tags (fst s) (ident parent))) rs s
          @ compared_areas str_len rs imgs
              (image_resource_loop img
                 (str_len (previous_sibling_tags (fst s) (ident parent))) rs s))"

fun scan_areas :: "(nat \<times> int) list \<Rightarrow> nat option \<times> int \<Rightarrow> nat option \<times> int" where
  "scan_areas [] s = s"
| "scan_areas (p # ps) s =
     scan_areas ps (if snd s < snd p then (Some (fst p), snd p) else s)"

text \<open>
  Documents and resources used as examples. Their URLs begin with \<open>https://\<close>, and
  \<open>host_of\<close> is the network location of such a URL. In the examples the parser is
  taken to rebuild the tree it is given, and the length of the text of a list of tags
  is taken as 2, which is the length of the text of the empty list; the set of domains
  is iterated in the order of first addition.
\<close>

definition shop_page :: node where
  "shop_page = Tag 0 ''[document]'' []
  [Tag 1 ''html'' []
    [Tag 2 ''head'' [] [Tag 3 ''link'' [(''rel'', Toks [''stylesheet'']), (''href'', Str ''a.css'')] []],
     Tag 4 ''body'' []
       [Tag 5 ''img'' [(''src'', Str ''a.png''), (''width'', Str ''10''), (''height'', Str ''10'')] [],
        Tag 6 ''script'' [(''src'', Str ''x.js'')] [NavigableString 7 ''hi''],
        Tag 8 ''img'' [(''src'', Str ''b.png'')] []]]]"

definition shop_resources :: resources where
  "shop_resources =
     \<lparr>res_css = [\<lparr>url = ''https://shop.example/a.css'', element = 3, local_path = Some ''css/a.css'',
                   width = None, height = None, webp_path = None\<rparr>],
      res_js = [\<lparr>url = ''https://cdn.example/x.js'', element = 6, local_path = Some ''js/x.js'',
                  width = None, height = None, webp_path = None\<rparr>],
      res_images = [\<lparr>url = ''https://shop.example/a.png'', element = 5, local_path = Some ''images/a.png'',
                      width = Some 640, height = Some 480, webp_path = Some ''images/a.webp''\<rparr>,
                    \<lparr>url = ''https://shop.example/b.png'', element = 8, local_path = Some ''images/b.png'',
                      width = Some 64, height = Some 48, webp_path = None\<rparr>],
      res_fonts = []\<rparr>"

definition host_of :: "string \<Rightarrow> string" where
  "host_of u = takeWhile (\<lambda>c. c \<noteq> CHR ''/'') (drop 8 u)"

definition photo_page :: node where
  "photo_page = Tag 0 ''[document]'' []
     [Tag 1 ''img'' [(''src'', Str ''a.png''), (''width'', Str ''10''), (''height'', Str ''10'')] []]"

definition photo_resources :: resources where
  "photo_resources =
     \<lparr>res_css = [], res_js = [],
      res_images = [\<lparr>url = ''https://shop.example/a.png'', element = 1, local_path = Some ''images/a.png'',
                      width = Some 640, height = Some 480, webp_path = None\<rparr>],
      res_fonts = []\<rparr>"

section \<open>Properties of the string primitives and of the rule pattern\<close>

lemma str_in_sublist: "str_in a b = sublist a b"
  by (induction b) (auto simp: sublist_Cons_right)

lemma str_in_iff: "str_in a b \<longleftrightarrow> (\<exists>p q. b = p @ a @ q)"
  by (simp add: str_in_sublist sublist_def)

lemma startswith_nonempty: "startswith s c \<Longrightarrow> s \<noteq> []"
  by (cases s) auto

lemma next_rule_shape:
  assumes "sel \<noteq> []" "CHR ''{'' \<notin> set sel" "CHR ''}'' \<notin> set body"
  shows "next_rule (sel @ CHR ''{'' # body @ CHR ''}'' # rest) = Some (sel, body, rest)"
proof -
  have so: "\<forall>x \<in> set sel. not_open x" using assms(2) by (auto simp: not_open_def)
  have bo: "\<forall>x \<in> set body. not_close x" using assms(3) by (auto simp: not_close_def)
  obtain c cs where sel: "sel = c # cs" using assms(1) by (cases sel) auto
  have c: "not_open c" using so sel by simp
  have d: "dropWhile (\<lambda>c. \<not> not_open c) (sel @ CHR ''{'' # body @ CHR ''}'' # rest)
           = sel @ CHR ''{'' # body @ CHR ''}'' # rest"
    using c sel by simp
  have t: "takeWhile not_open (sel @ CHR ''{'' # body @ CHR ''}'' # rest) = sel"
    using so by (simp add: takeWhile_append2 not_open_def)
  have r1: "dropWhile not_open (sel @ CHR ''{'' # body @ CHR ''}'' # rest)
            = CHR ''{'' # body @ CHR ''}'' # rest"
    using so by (simp add: dropWhile_append2 not_open_def)
  have tb: "takeWhile not_close (body @ CHR ''}'' # rest) = body"
    using bo by (simp add: takeWhile_append2 not_close_def)
  have db: "dropWhile not_close (body @ CHR ''}'' # rest) = CHR ''}'' # rest"
    using bo by (simp add: dropWhile_append2 not_close_def)
  show ?thesis
    unfolding next_rule_def Let_def d t r1 using assms(1) by (simp add: tb db)
qed

lemma findall_rules_shape:
  assumes "sel \<noteq> []" "CHR ''{'' \<notin> set sel" "CHR ''}'' \<notin> set body"
  shows "findall_rules (sel @ CHR ''{'' # body @ CHR ''}'' # rest)
           = (sel, body) # findall_rules rest"
  by (subst findall_rules.simps) (simp add: next_rule_shape [OF assms])

section \<open>The loops as comprehensions\<close>

lemma any_element_selector_iff:
  "any_element_selector es b \<longleftrightarrow> (\<exists>e \<in> set es. str_in e b)"
  by (induction es) auto

lemma match_loop_eq:
  "match_loop es L acc =
     acc \<union> {s \<in> set L. \<exists>e \<in> set es. str_in e (strip_pseudo s)}"
  by (induction L arbitrary: acc) (auto simp: Let_def any_element_selector_iff)

lemma parse_matches_eq:
  "parse_matches ms acc =
     acc @ concat (map selector_parts_of (filter (\<lambda>m. \<not> at_rule m) ms))"
  by (induction ms arbitrary: acc) (auto simp: Let_def at_rule_def selector_parts_of_def)

lemma parse_matches_acc: "parse_matches ms acc = acc @ parse_matches ms []"
  by (simp add: parse_matches_eq)

lemma emit_matches_eq:
  "emit_matches crit ms acc =
     acc @ concat (map format_match
                    (filter (\<lambda>m. \<not> at_rule m \<and> has_critical_part crit m) ms))"
  by (induction ms arbitrary: acc)
     (auto simp: Let_def at_rule_def selector_parts_of_def has_critical_part_def
                 format_match_def)

lemma emit_sheets_eq:
  "emit_sheets crit sheets acc =
     acc @ concat (map format_match
                    (filter (\<lambda>m. \<not> at_rule m \<and> has_critical_part crit m)
                       (all_rules sheets)))"
  by (induction sheets arbitrary: acc) (auto simp: emit_matches_eq all_rules_def)

lemma generate_critical_css_eq:
  "generate_critical_css cs crit =
     header_comment @ preamble @
       concat (map format_match
                (filter (\<lambda>m. \<not> at_rule m \<and> has_critical_part crit m) (all_rules cs)))"
  by (simp add: generate_critical_css_def emit_sheets_eq)

section \<open>The selector matcher\<close>

lemma strip_pseudo_prefix:
  "CHR '':'' \<notin> set base \<Longrightarrow> strip_pseudo (base @ t) = base @ strip_pseudo t"
  by (induction base) (auto simp: strip_pseudo.simps)

lemma ident_char_not_colon: "is_ident_char c \<Longrightarrow> c \<noteq> CHR '':''"
  by (auto simp: is_ident_char_def)

lemma ident_char_not_lparen: "is_ident_char c \<Longrightarrow> c \<noteq> CHR ''(''"
  by (auto simp: is_ident_char_def)

lemma pseudo_end_ident:
  assumes "idn \<noteq> []" "\<forall>c \<in> set idn. is_ident_char c" "CHR '')'' \<notin> set arg"
  shows "pseudo_end idn = Some []"
    and "pseudo_end (CHR '':'' # idn) = Some []"
    and "pseudo_end (idn @ CHR ''('' # arg @ [CHR '')'']) = Some []"
    and "pseudo_end (CHR '':'' # idn @ CHR ''('' # arg @ [CHR '')'']) = Some []"
proof -
  obtain c cs where i: "idn = c # cs" using assms(1) by (cases idn) auto
  have c: "c \<noteq> CHR '':''" using assms(2) i ident_char_not_colon by auto
  have t: "takeWhile is_ident_char (idn @ r) = idn @ takeWhile is_ident_char r" for r
    using assms(2) by (simp add: takeWhile_append2)
  have d: "dropWhile is_ident_char (idn @ r) = dropWhile is_ident_char r" for r
    using assms(2) by (simp add: dropWhile_append2)
  have t0: "takeWhile is_ident_char idn = idn" using t [of "[]"] by simp
  have d0: "dropWhile is_ident_char idn = []" using d [of "[]"] by simp
  have lp: "\<not> is_ident_char (CHR ''('')" by (simp add: is_ident_char_def)
  have tp: "takeWhile is_ident_char (idn @ CHR ''('' # r) = idn" for r
    using t [of "CHR ''('' # r"] lp by simp
  have dp: "dropWhile is_ident_char (idn @ CHR ''('' # r) = CHR ''('' # r" for r
    using d [of "CHR ''('' # r"] lp by simp
  have "\<forall>x \<in> set arg. not_rparen x" using assms(3) by (auto simp: not_rparen_def)
  then have a: "dropWhile not_rparen (arg @ [CHR '')'']) = [CHR '')'']"
    by (simp add: dropWhile_append2) (simp add: not_rparen_def)
  have s: "\<not> startswith idn (CHR '':'')" using c i by simp
  have s2: "\<not> startswith (idn @ r) (CHR '':'')" for r using c i by simp
  show "pseudo_end idn = Some []"
    by (simp add: pseudo_end_def Let_def s t0 d0 assms(1))
  show "pseudo_end (CHR '':'' # idn) = Some []"
    by (simp add: pseudo_end_def Let_def t0 d0 assms(1))
  show "pseudo_end (idn @ CHR ''('' # arg @ [CHR '')'']) = Some []"
    by (simp add: pseudo_end_def Let_def s2 tp dp a assms(1))
  show "pseudo_end (CHR '':'' # idn @ CHR ''('' # arg @ [CHR '')'']) = Some []"
    by (simp add: pseudo_end_def Let_def tp dp a assms(1))
qed

lemma strip_pseudo_suffix:
  assumes "CHR '':'' \<notin> set base" "idn \<noteq> []" "\<forall>c \<in> set idn. is_ident_char c"
    "CHR '')'' \<notin> set arg"
  shows "strip_pseudo (base @ '':'' @ idn) = base"
    and "strip_pseudo (base @ ''::'' @ idn) = base"
    and "strip_pseudo (base @ '':'' @ idn @ ''('' @ arg @ '')'') = base"
    and "strip_pseudo (base @ ''::'' @ idn @ ''('' @ arg @ '')'') = base"
  using pseudo_end_ident [OF assms(2,3,4)]
  by (simp_all add: strip_pseudo_prefix [OF assms(1)] strip_pseudo.simps)

text \<open>
  C1. For every iteration order \<open>es\<close> of the signature set and every list \<open>L\<close> of
  selector strings, \<open>match_selectors\<close> returns exactly the set of the strings \<open>s\<close> of
  \<open>L\<close> for which some signature is a substring of the base selector
  \<open>strip_pseudo s\<close>. The members are the original strings, not the base selectors,
  and the result depends on the signatures only through their set, so not on which
  signature matched first. The base selector of a selector without colon followed by
  \<open>:\<close> or \<open>::\<close>, an identifier of letters and hyphens and possibly an argument in
  parentheses is that selector.
\<close>

theorem match_selectors_exact:
  "match_selectors es L =
     {s \<in> set L. \<exists>sig \<in> set es. \<exists>p q. strip_pseudo s = p @ sig @ q}
   \<and> (CHR '':'' \<notin> set base \<and> idn \<noteq> [] \<and> (\<forall>c \<in> set idn. is_ident_char c)
        \<and> CHR '')'' \<notin> set arg \<longrightarrow>
          strip_pseudo (base @ '':'' @ idn) = base
        \<and> strip_pseudo (base @ ''::'' @ idn) = base
        \<and> strip_pseudo (base @ '':'' @ idn @ ''('' @ arg @ '')'') = base
        \<and> strip_pseudo (base @ ''::'' @ idn @ ''('' @ arg @ '')'') = base)"
proof (intro conjI impI)
  show "match_selectors es L =
     {s \<in> set L. \<exists>sig \<in> set es. \<exists>p q. strip_pseudo s = p @ sig @ q}"
    by (simp add: match_selectors_def match_loop_eq str_in_iff)
next
  assume h: "CHR '':'' \<notin> set base \<and> idn \<noteq> [] \<and> (\<forall>c \<in> set idn. is_ident_char c)
        \<and> CHR '')'' \<notin> set arg"
  then have 1: "CHR '':'' \<notin> set base" and 2: "idn \<noteq> []"
    and 3: "\<forall>c \<in> set idn. is_ident_char c" and 4: "CHR '')'' \<notin> set arg"
    by auto
  show "strip_pseudo (base @ '':'' @ idn) = base"
    by (rule strip_pseudo_suffix(1) [OF 1 2 3 4])
  show "strip_pseudo (base @ ''::'' @ idn) = base"
    by (rule strip_pseudo_suffix(2) [OF 1 2 3 4])
  show "strip_pseudo (base @ '':'' @ idn @ ''('' @ arg @ '')'') = base"
    by (rule strip_pseudo_suffix(3) [OF 1 2 3 4])
  show "strip_pseudo (base @ ''::'' @ idn @ ''('' @ arg @ '')'') = base"
    by (rule strip_pseudo_suffix(4) [OF 1 2 3 4])
qed

theorem match_selectors_exact_witness:
  "''header:hover'' \<in> match_selectors [''header'', ''.x''] [''header:hover'', ''.foo'', ''nav .x::after''] \<and>
   ''nav .x::after'' \<in> match_selectors [''header'', ''.x''] [''header:hover'', ''.foo'', ''nav .x::after''] \<and>
   ''.foo'' \<notin> match_selectors [''header'', ''.x''] [''header:hover'', ''.foo'', ''nav .x::after''] \<and>
   strip_pseudo (''a'' @ '':'' @ ''nth-child'' @ ''('' @ ''2n+1'' @ '')'') = ''a''"
proof -
  have a: "strip_pseudo ''header:hover'' = ''header''" by code_simp
  have b: "strip_pseudo ''.foo'' = ''.foo''" by code_simp
  have c: "strip_pseudo ''nav .x::after'' = ''nav .x''" by code_simp
  have 1: "\<exists>p q. ''header'' = p @ ''header'' @ q"
    unfolding str_in_iff [symmetric] by code_simp
  have 2: "\<not> (\<exists>p q. ''.foo'' = p @ ''header'' @ q)"
    unfolding str_in_iff [symmetric] by code_simp
  have 3: "\<not> (\<exists>p q. ''.foo'' = p @ ''.x'' @ q)"
    unfolding str_in_iff [symmetric] by code_simp
  have 4: "\<exists>p q. ''nav .x'' = p @ ''.x'' @ q"
    unfolding str_in_iff [symmetric] by code_simp
  have m1: "''header:hover'' \<in> {s \<in> set [''header:hover'', ''.foo'', ''nav .x::after'']. \<exists>sig \<in> set [''header'', ''.x'']. \<exists>p q. strip_pseudo s = p @ sig @ q}"
    using 1 by (simp add: a)
  have m2: "''nav .x::after'' \<in> {s \<in> set [''header:hover'', ''.foo'', ''nav .x::after'']. \<exists>sig \<in> set [''header'', ''.x'']. \<exists>p q. strip_pseudo s = p @ sig @ q}"
    using 4 by (simp add: c)
  have m3: "''.foo'' \<notin> {s \<in> set [''header:hover'', ''.foo'', ''nav .x::after'']. \<exists>sig \<in> set [''header'', ''.x'']. \<exists>p q. strip_pseudo s = p @ sig @ q}"
    using 2 3 by (simp add: b)
  have h: "CHR '':'' \<notin> set ''a'' \<and> ''nth-child'' \<noteq> []
           \<and> (\<forall>c \<in> set ''nth-child''. is_ident_char c) \<and> CHR '')'' \<notin> set ''2n+1''"
    by (simp add: is_ident_char_def)
  note t = match_selectors_exact
            [of "[''header'', ''.x'']" "[''header:hover'', ''.foo'', ''nav .x::after'']"
                "''a''" "''nth-child''" "''2n+1''"]
  have e: "match_selectors [''header'', ''.x''] [''header:hover'', ''.foo'', ''nav .x::after'']
           = {s \<in> set [''header:hover'', ''.foo'', ''nav .x::after'']. \<exists>sig \<in> set [''header'', ''.x'']. \<exists>p q. strip_pseudo s = p @ sig @ q}"
    using t by (rule conjunct1)
  have s: "strip_pseudo (''a'' @ '':'' @ ''nth-child'' @ ''('' @ ''2n+1'' @ '')'') = ''a''"
    using t h by blast
  show ?thesis
    using m1 m2 m3 s unfolding e by blast
qed

text \<open>
  C9. Containment monotonicity: when every signature of \<open>S\<close> is a signature of
  \<open>S'\<close>, every selector matched for \<open>S\<close> is matched for \<open>S'\<close>.
\<close>

theorem match_selectors_mono:
  assumes "set S \<subseteq> set S'"
  shows "match_selectors S L \<subseteq> match_selectors S' L"
  using assms by (auto simp: match_selectors_def match_loop_eq)

theorem match_selectors_mono_witness:
  "set [''header''] \<subseteq> set [''.x'', ''header''] \<and>
   match_selectors [''header''] [''header:hover'', ''nav .x'']
     \<subseteq> match_selectors [''.x'', ''header''] [''header:hover'', ''nav .x'']"
proof -
  have h: "set [''header''] \<subseteq> set [''.x'', ''header'']" by simp
  show ?thesis
    using h match_selectors_mono [OF h, of "[''header:hover'', ''nav .x'']"] by simp
qed

section \<open>The composer\<close>

text \<open>
  C8. Whatever the critical set and the stylesheets, the composed text starts with the
  header comment followed by the fixed preamble, so it contains the preamble verbatim
  and is not empty. With the empty critical set, and more generally when no selector of
  any rule is in the critical set, the composed text is the header comment and the
  preamble and nothing else.
\<close>

theorem preamble_always:
  "sublist preamble (generate_critical_css cs crit) \<and>
   prefix (header_comment @ preamble) (generate_critical_css cs crit) \<and>
   generate_critical_css cs crit \<noteq> [] \<and>
   generate_critical_css cs {} = header_comment @ preamble \<and>
   ((\<forall>m \<in> set (all_rules cs). \<not> has_critical_part crit m)
      \<longrightarrow> generate_critical_css cs crit = header_comment @ preamble)"
proof (intro conjI impI)
  show "sublist preamble (generate_critical_css cs crit)"
    unfolding generate_critical_css_eq sublist_def by blast
  show "prefix (header_comment @ preamble) (generate_critical_css cs crit)"
    unfolding generate_critical_css_eq by (simp add: prefix_def)
  show "generate_critical_css cs crit \<noteq> []"
    unfolding generate_critical_css_eq by (simp add: header_comment_def)
  show "generate_critical_css cs {} = header_comment @ preamble"
    unfolding generate_critical_css_eq by (simp add: has_critical_part_def)
next
  assume a: "\<forall>m \<in> set (all_rules cs). \<not> has_critical_part crit m"
  have "filter (\<lambda>m. \<not> at_rule m \<and> has_critical_part crit m) (all_rules cs) = []"
    using a by (auto simp: filter_empty_conv)
  then show "generate_critical_css cs crit = header_comment @ preamble"
    unfolding generate_critical_css_eq by simp
qed

theorem preamble_always_witness:
  "\<not> (\<exists>m \<in> set (all_rules [(''u'', ''.foo{color:blue}'')]).
        has_critical_part {''header''} m) \<and>
   generate_critical_css [(''u'', ''.foo{color:blue}'')] {''header''}
     = header_comment @ preamble \<and>
   sublist preamble (generate_critical_css [(''u'', ''.foo{color:blue}'')] {''header''})"
proof -
  have r: "all_rules [(''u'', ''.foo{color:blue}'')] = [(''.foo'', ''color:blue'')]"
    by code_simp
  have n: "\<not> has_critical_part {''header''} (''.foo'', ''color:blue'')"
    by code_simp
  have h: "\<forall>m \<in> set (all_rules [(''u'', ''.foo{color:blue}'')]).
             \<not> has_critical_part {''header''} m"
    using n by (simp add: r)
  show ?thesis
    using h preamble_always [of "[(''u'', ''.foo{color:blue}'')]" "{''header''}"]
    by simp
qed

text \<open>
  C2, as the code has it. The test for \<open>@\<close> is made on the trimmed selector text
  of a whole rule, before it is split at commas. The parser returns the selectors of
  the rules that are not at-rules and of no other rule, and the composer emits, after
  the header and the preamble, the rules that are not at-rules and have a selector in
  the critical set, and no other rule. A comma-separated part that begins with \<open>@\<close>
  inside a rule whose text does not begin with \<open>@\<close> is returned like any other part.
\<close>

theorem at_rules_excluded:
  "parse_css css =
     concat (map selector_parts_of (filter (\<lambda>m. \<not> at_rule m) (findall_rules css))) \<and>
   generate_critical_css cs crit =
     header_comment @ preamble @
       concat (map format_match
                (filter (\<lambda>m. \<not> at_rule m \<and> has_critical_part crit m) (all_rules cs)))"
  by (simp add: parse_css_def parse_matches_eq generate_critical_css_eq)

theorem at_rules_excluded_witness:
  "parse_css ''@m{a}b,c{d}'' = [''b'', ''c''] \<and>
   generate_critical_css [(''u'', ''@m{a}b,c{d}'')] {''@m'', ''c''}
     = header_comment @ preamble @ ''b,c {\<newline>    d;\<newline>}\<newline>\<newline>''"
proof -
  have f: "findall_rules ''@m{a}b,c{d}'' = [(''@m'', ''a''), (''b,c'', ''d'')]"
    by code_simp
  have r: "all_rules [(''u'', ''@m{a}b,c{d}'')] = [(''@m'', ''a''), (''b,c'', ''d'')]"
    by code_simp
  have a1: "at_rule (''@m'', ''a'')" by code_simp
  have a2: "\<not> at_rule (''b,c'', ''d'')" by code_simp
  have p: "selector_parts_of (''b,c'', ''d'') = [''b'', ''c'']" by code_simp
  have c: "has_critical_part {''@m'', ''c''} (''b,c'', ''d'')" by code_simp
  have m: "format_match (''b,c'', ''d'') = ''b,c {\<newline>    d;\<newline>}\<newline>\<newline>''" by code_simp
  show ?thesis
    using at_rules_excluded [of "''@m{a}b,c{d}''" "[(''u'', ''@m{a}b,c{d}'')]" "{''@m'', ''c''}"]
    by (simp add: f r a1 a2 p c m)
qed

text \<open>
  The statement of C2 for the single selectors fails: in \<open>a,@b{}\<close> the rule text
  begins with \<open>a\<close>, and the parser returns the part \<open>@b\<close>.
\<close>

theorem at_part_returned:
  "''@b'' \<in> set (parse_css ''a,@b{}'') \<and> startswith (strip ''@b'') CHR ''@''"
  by code_simp

text \<open>
  C10. In a text of the shape \<open>P { A { d1 } B { d2 } tail\<close>, where the trimmed
  prelude \<open>P\<close> begins with \<open>@\<close>, the pattern takes \<open>P\<close> with \<open>A { d1\<close> as one
  rule, which is dropped as an at-rule, and then \<open>B\<close> with \<open>d2\<close> as an ordinary
  rule: the parser returns the selectors of \<open>B\<close>, and when one of them is critical the
  composer emits the rule of \<open>B\<close> right after the preamble, without the prelude.
\<close>

theorem at_rule_block_inner_rules:
  assumes P: "startswith (strip P) CHR ''@''" "CHR ''{'' \<notin> set P"
    and A: "CHR ''}'' \<notin> set A" "CHR ''}'' \<notin> set d1"
    and B: "B \<noteq> []" "CHR ''{'' \<notin> set B" "\<not> startswith (strip B) CHR ''@''"
    and d2: "CHR ''}'' \<notin> set d2"
  shows "parse_css (P @ ''{'' @ A @ ''{'' @ d1 @ ''}'' @ B @ ''{'' @ d2 @ ''}'' @ tail)
           = map strip (split_on CHR '','' (strip B)) @ parse_css tail
       \<and> ((\<exists>s \<in> set (map strip (split_on CHR '','' (strip B))). s \<in> crit) \<longrightarrow>
            generate_critical_css
              [(u, P @ ''{'' @ A @ ''{'' @ d1 @ ''}'' @ B @ ''{'' @ d2 @ ''}'' @ tail)] crit
            = emit_matches crit (findall_rules tail)
                (header_comment @ preamble @ format_rule (strip B) d2))"
proof -
  have Pne: "P \<noteq> []" using P(1) by (auto dest: startswith_nonempty simp: strip_def)
  have body1: "CHR ''}'' \<notin> set (A @ ''{'' @ d1)" using A by simp
  have f1: "findall_rules (P @ ''{'' @ A @ ''{'' @ d1 @ ''}'' @ B @ ''{'' @ d2 @ ''}'' @ tail)
            = (P, A @ ''{'' @ d1) # findall_rules (B @ ''{'' @ d2 @ ''}'' @ tail)"
    using findall_rules_shape [OF Pne P(2) body1, of "B @ ''{'' @ d2 @ ''}'' @ tail"] by simp
  have f2: "findall_rules (B @ ''{'' @ d2 @ ''}'' @ tail) = (B, d2) # findall_rules tail"
    using findall_rules_shape [OF B(1) B(2) d2, of tail] by simp
  have f: "findall_rules (P @ ''{'' @ A @ ''{'' @ d1 @ ''}'' @ B @ ''{'' @ d2 @ ''}'' @ tail)
            = (P, A @ ''{'' @ d1) # (B, d2) # findall_rules tail"
    using f1 f2 by simp
  have pm: "parse_matches ((P, A @ ''{'' @ d1) # (B, d2) # ms) []
            = map strip (split_on CHR '','' (strip B)) @ parse_matches ms []" for ms
    using P(1) B(3) parse_matches_acc [of ms "map strip (split_on CHR '','' (strip B))"]
    by (simp add: Let_def)
  have em: "emit_matches crit ((P, A @ ''{'' @ d1) # (B, d2) # ms) acc
            = emit_matches crit ms (acc @ format_rule (strip B) d2)"
    if "\<exists>s \<in> set (map strip (split_on CHR '','' (strip B))). s \<in> crit" for ms acc
    using P(1) B(3) that by (simp add: Let_def)
  show ?thesis
  proof (intro conjI impI)
    show "parse_css (P @ ''{'' @ A @ ''{'' @ d1 @ ''}'' @ B @ ''{'' @ d2 @ ''}'' @ tail)
           = map strip (split_on CHR '','' (strip B)) @ parse_css tail"
      unfolding parse_css_def f by (rule pm)
  next
    assume h: "\<exists>s \<in> set (map strip (split_on CHR '','' (strip B))). s \<in> crit"
    show "generate_critical_css
              [(u, P @ ''{'' @ A @ ''{'' @ d1 @ ''}'' @ B @ ''{'' @ d2 @ ''}'' @ tail)] crit
            = emit_matches crit (findall_rules tail)
                (header_comment @ preamble @ format_rule (strip B) d2)"
      unfolding generate_critical_css_def
      by (simp only: emit_sheets.simps f em [OF h] append_assoc)
  qed
qed

theorem at_rule_block_inner_rules_witness:
  "parse_css ''@media X { A { d1 } B { d2 } }'' = [''B''] \<and>
   generate_critical_css [(''u'', ''@media X { A { d1 } B { d2 } }'')] {''B''}
     = header_comment @ preamble @ ''B {\<newline>    d2;\<newline>}\<newline>\<newline>''"
proof -
  have 1: "startswith (strip ''@media X '') CHR ''@''" by code_simp
  have 2: "CHR ''{'' \<notin> set ''@media X ''" by simp
  have 3: "CHR ''}'' \<notin> set '' A ''" by simp
  have 4: "CHR ''}'' \<notin> set '' d1 ''" by simp
  have 5: "'' B '' \<noteq> []" by simp
  have 6: "CHR ''{'' \<notin> set '' B ''" by simp
  have 7: "\<not> startswith (strip '' B '') CHR ''@''" by code_simp
  have 8: "CHR ''}'' \<notin> set '' d2 ''" by simp
  have p: "map strip (split_on CHR '','' (strip '' B '')) = [''B'']" by code_simp
  have t: "findall_rules '' }'' = []" by code_simp
  have f: "format_rule (strip '' B '') '' d2 '' = ''B {\<newline>    d2;\<newline>}\<newline>\<newline>''"
    by code_simp
  have pt: "parse_css '' }'' = []" by code_simp
  show ?thesis
    using at_rule_block_inner_rules [OF 1 2 3 4 5 6 7 8, of "'' }''" "{''B''}" "''u''"]
    by (simp add: p t f pt)
qed

section \<open>The above-fold heuristic\<close>

lemma sublist_split_at:
  assumes "c \<notin> set w" "sublist w (a @ c # b)"
  shows "sublist w a \<or> sublist w b"
proof -
  obtain p q where e: "a @ c # b = p @ w @ q" using assms(2) by (auto simp: sublist_def)
  then obtain us where "(a = p @ us \<and> us @ c # b = w @ q) \<or> (a @ us = p \<and> c # b = us @ w @ q)"
    by (auto simp: append_eq_append_conv2)
  then show ?thesis
  proof
    assume h: "a = p @ us \<and> us @ c # b = w @ q"
    then obtain vs where "(us = w @ vs \<and> vs @ c # b = q) \<or> (us @ vs = w \<and> c # b = vs @ q)"
      by (auto simp: append_eq_append_conv2)
    then show ?thesis
    proof
      assume "us = w @ vs \<and> vs @ c # b = q"
      then have "a = p @ w @ vs" using h by simp
      then show ?thesis by (auto simp: sublist_def)
    next
      assume k: "us @ vs = w \<and> c # b = vs @ q"
      show ?thesis
      proof (cases vs)
        case Nil
        then have "a = p @ w @ []" using h k by simp
        then show ?thesis unfolding sublist_def by blast
      next
        case (Cons v vs')
        then have "c \<in> set w" using k by auto
        then show ?thesis using assms(1) by simp
      qed
    qed
  next
    assume h: "a @ us = p \<and> c # b = us @ w @ q"
    show ?thesis
    proof (cases us)
      case Nil
      then have "c # b = w @ q" using h by simp
      then have "w = []" using assms(1) by (cases w) auto
      then show ?thesis by simp
    next
      case (Cons u us')
      then have "b = us' @ w @ q" using h by simp
      then show ?thesis unfolding sublist_def by blast
    qed
  qed
qed

lemma sublist_join_tokens:
  assumes "CHR '' '' \<notin> set w" "w \<noteq> []" "sublist w (map f (join_tokens ts))" "f (CHR '' '') = CHR '' ''"
  shows "\<exists>t \<in> set ts. sublist w (map f t)"
  using assms(3)
proof (induction ts rule: join_tokens.induct)
  case 1
  then show ?case using assms(2) by simp
next
  case (2 t)
  then show ?case by simp
next
  case (3 t u ts)
  have "sublist w (map f t @ CHR '' '' # map f (join_tokens (u # ts)))"
    using 3(2) assms(4) by simp
  then have "sublist w (map f t) \<or> sublist w (map f (join_tokens (u # ts)))"
    using sublist_split_at [OF assms(1)] by blast
  then show ?case using 3(1) by auto
qed

lemma lower_char_space: "lower_char (CHR '' '') = CHR '' ''"
  by (simp add: lower_char_def)

lemma str_in_lower_join:
  assumes "CHR '' '' \<notin> set w" "w \<noteq> []" "str_in w (lower (join_tokens ts))"
  shows "\<exists>t \<in> set ts. str_in w (lower t)"
proof -
  have "sublist w (map lower_char (join_tokens ts))"
    using assms(3) by (simp add: str_in_sublist lower_def)
  from sublist_join_tokens [OF assms(1) assms(2) this lower_char_space]
  show ?thesis by (simp add: str_in_sublist lower_def)
qed

lemma find_all_tags: "find_all P soup = filter P (tags soup)"
  by (simp add: find_all_def tags_def)

lemma str_in_Nil [simp]: "str_in w [] = (w = [])"
  by simp

lemma hero_or_banner_class:
  "attr_matches hero_or_banner ''class'' e = class_token_contains [''hero'', ''banner''] e"
proof (cases "get_attr e ''class''")
  case None
  then show ?thesis by (simp add: attr_matches_def class_token_contains_def hero_or_banner_def)
next
  case (Some v)
  show ?thesis
  proof (cases v)
    case (Str s)
    then show ?thesis using Some
      by (cases s) (auto simp: attr_matches_def class_token_contains_def hero_or_banner_def lower_def)
  next
    case (Toks ts)
    have a: "\<exists>t \<in> set ts. str_in ''hero'' (lower t)" if "str_in ''hero'' (lower (join_tokens ts))"
      using str_in_lower_join [OF _ _ that] by simp
    have b: "\<exists>t \<in> set ts. str_in ''banner'' (lower t)" if "str_in ''banner'' (lower (join_tokens ts))"
      using str_in_lower_join [OF _ _ that] by simp
    have c: "t \<noteq> []" if "str_in ''hero'' (lower t) \<or> str_in ''banner'' (lower t)" for t
      using that by (cases t) (auto simp: lower_def)
    show ?thesis using Some Toks a b c
      by (auto simp: attr_matches_def class_token_contains_def hero_or_banner_def)
  qed
qed

lemma section_class_class:
  "attr_matches section_class ''class'' e = class_token_contains [''section''] e"
proof (cases "get_attr e ''class''")
  case None
  then show ?thesis by (simp add: attr_matches_def class_token_contains_def section_class_def)
next
  case (Some v)
  show ?thesis
  proof (cases v)
    case (Str s)
    then show ?thesis using Some
      by (cases s) (auto simp: attr_matches_def class_token_contains_def section_class_def lower_def)
  next
    case (Toks ts)
    have a: "\<exists>t \<in> set ts. str_in ''section'' (lower t)"
      if "str_in ''section'' (lower (join_tokens ts))"
      using str_in_lower_join [OF _ _ that] by simp
    have c: "t \<noteq> []" if "str_in ''section'' (lower t)" for t
      using that by (cases t) (auto simp: lower_def)
    show ?thesis using Some Toks a c
      by (auto simp: attr_matches_def class_token_contains_def section_class_def)
  qed
qed

lemma last_insort_key:
  assumes "sorted (map f ys)"
  shows "last (insort_key f x ys) = (if ys = [] \<or> f (last ys) < f x then x else last ys)"
  using assms
proof (induction ys)
  case Nil
  then show ?case by simp
next
  case (Cons y ys)
  show ?case
  proof (cases "f x \<le> f y")
    case True
    have "f y \<le> f (last (y # ys))" using Cons.prems by (cases ys) auto
    then show ?thesis using True by auto
  next
    case False
    have s: "sorted (map f ys)" using Cons.prems by simp
    have ne: "insort_key f x ys \<noteq> []" by (cases ys) auto
    show ?thesis using False Cons.IH [OF s] ne by (cases ys) auto
  qed
qed

lemma last_max_sort_key:
  "last_max f xs = (if xs = [] then None else Some (last (sort_key f xs)))"
proof (induction xs)
  case Nil
  then show ?case by simp
next
  case (Cons x xs)
  have s: "sorted (map f (sort_key f xs))" by simp
  have e: "sort_key f xs = [] \<longleftrightarrow> xs = []" by (cases xs) (auto simp: sort_key_def)
  show ?case
    using Cons last_insort_key [OF s, of x] e by (auto simp: sort_key_simps)
qed

lemma last_max_snoc:
  "last_max f (ys @ [x]) =
     (case last_max f ys of None \<Rightarrow> Some x | Some y \<Rightarrow> if f x < f y then Some y else Some x)"
  by (induction ys) (auto split: option.splits)

lemma first_max_rev: "first_max f xs = last_max f (rev xs)"
  by (induction xs) (auto simp: last_max_snoc split: option.splits)

lemma first_max_map:
  "first_max fst (map (\<lambda>x. (f x, x)) xs) = map_option (\<lambda>x. (f x, x)) (first_max f xs)"
  by (induction xs) (auto split: option.splits)

lemma first_max_None: "first_max f xs = None \<longleftrightarrow> xs = []"
  by (cases xs) (auto split: option.splits)

lemma first_max_split:
  assumes "first_max f xs = Some c"
  shows "\<exists>pre post. xs = pre @ c # post \<and> (\<forall>x \<in> set pre. f x < f c)
                     \<and> (\<forall>x \<in> set post. f x \<le> f c)"
  using assms
proof (induction xs arbitrary: c)
  case Nil
  then show ?case by simp
next
  case (Cons x xs)
  show ?case
  proof (cases "first_max f xs")
    case None
    then have "xs = []" "c = x" using Cons.prems by (auto simp: first_max_None)
    then have "x # xs = [] @ c # [] \<and> (\<forall>z \<in> set []. f z < f c)
               \<and> (\<forall>z \<in> set []. f z \<le> f c)"
      by simp
    then show ?thesis by blast
  next
    case (Some y)
    then obtain pre post where d: "xs = pre @ y # post" "\<forall>x \<in> set pre. f x < f y"
        "\<forall>x \<in> set post. f x \<le> f y"
      using Cons.IH by blast
    show ?thesis
    proof (cases "f x < f y")
      case True
      then have "c = y" using Cons.prems Some by simp
      then have "x # xs = (x # pre) @ c # post \<and> (\<forall>z \<in> set (x # pre). f z < f c)
                 \<and> (\<forall>z \<in> set post. f z \<le> f c)"
        using d True by auto
      then show ?thesis by blast
    next
      case False
      then have c: "c = x" using Cons.prems Some by simp
      have "\<forall>z \<in> set xs. f z \<le> f x" using d False by auto
      then have "x # xs = [] @ c # xs \<and> (\<forall>z \<in> set []. f z < f c)
                 \<and> (\<forall>z \<in> set xs. f z \<le> f c)"
        using c by auto
      then show ?thesis by blast
    qed
  qed
qed

lemma hd_rev_sort_key_rev:
  assumes "ks \<noteq> []"
  shows "first_max fst ks = Some (hd (rev (sort_key fst (rev ks))))"
proof -
  have ne: "sort_key fst (rev ks) \<noteq> []" using assms by (cases "rev ks") (auto simp: sort_key_def)
  have "first_max fst ks = Some (last (sort_key fst (rev ks)))"
    using assms by (simp add: first_max_rev last_max_sort_key)
  then show ?thesis using ne by (simp add: hd_rev)
qed

lemma keys_of_total:
  assumes "\<forall>x \<in> set xs. \<exists>a. key x = Inr a"
  shows "keys_of key xs = Inr (map (\<lambda>x. (case key x of Inl e \<Rightarrow> 0 | Inr a \<Rightarrow> a, x)) xs)"
  using assms by (induction xs) auto

lemma sort_reverse_first:
  assumes "\<forall>x \<in> set xs. \<exists>a. key x = Inr a" "xs \<noteq> []"
  shows "\<exists>rest. sort_reverse key xs
            = Inr (the (first_max (\<lambda>x. case key x of Inl e \<Rightarrow> 0 | Inr a \<Rightarrow> a) xs) # rest)"
proof -
  define val where "val = (\<lambda>x. case key x of Inl e \<Rightarrow> (0::int) | Inr a \<Rightarrow> a)"
  define ks where "ks = map (\<lambda>x. (val x, x)) xs"
  have k: "keys_of key xs = Inr ks"
    unfolding ks_def val_def by (rule keys_of_total [OF assms(1)])
  have ne: "ks \<noteq> []" using assms(2) by (simp add: ks_def)
  have ne2: "rev (sort_key fst (rev ks)) \<noteq> []"
    using ne by (cases "rev ks") (auto simp: sort_key_def)
  obtain c where c: "first_max val xs = Some c"
    using assms(2) first_max_None [of val xs] by (cases "first_max val xs") auto
  have "first_max fst ks = Some (val c, c)"
    unfolding ks_def by (simp add: first_max_map c)
  then have "hd (rev (sort_key fst (rev ks))) = (val c, c)"
    using hd_rev_sort_key_rev [OF ne] by simp
  then obtain rest where "rev (sort_key fst (rev ks)) = (val c, c) # rest"
    using ne2 by (cases "rev (sort_key fst (rev ks))") auto
  then have "sort_reverse key xs = Inr (c # map snd rest)"
    by (simp add: sort_reverse_def k)
  then show ?thesis using c unfolding val_def by auto
qed

lemma hero_or_banner_fun:
  "attr_matches hero_or_banner ''class'' = class_token_contains [''hero'', ''banner'']"
  by (rule ext) (rule hero_or_banner_class)

lemma find_above_fold_elements_eq:
  assumes "\<forall>img \<in> set (sized_images soup). \<exists>a. area_key img = Inr a"
  shows "find_above_fold_elements soup =
           Inr (landmarks soup
                @ (case first_max attr_area (sized_images soup) of None \<Rightarrow> [] | Some c \<Rightarrow> [c]))"
proof -
  define sized where "sized = sized_images soup"
  have s: "filter (\<lambda>img. has_attr img ''width'' \<and> has_attr img ''height'')
             (find_all (name_in [''img'']) soup) = sized"
    unfolding sized_def sized_images_def find_all_tags name_in_def
    by (simp add: conj_commute conj_left_commute cong: conj_cong)
  have l: "(let above_fold_elements = find_all (name_in [''header'', ''nav'']) soup;
                hero_sections = find_all (attr_matches hero_or_banner ''class'') soup;
                above_fold_elements = above_fold_elements @ hero_sections;
                sections = find_all (\<lambda>e. name_in [''section'', ''div''] e
                                    \<and> attr_matches section_class ''class'' e) soup
            in (if sections \<noteq> [] then above_fold_elements @ take 3 sections
                else above_fold_elements)) = landmarks soup"
    by (simp add: Let_def landmarks_def find_all_tags hero_or_banner_fun section_class_class)
  show ?thesis
  proof (cases "sized = []")
    case True
    then show ?thesis
      using l unfolding find_above_fold_elements_def Let_def s sized_def [symmetric]
      by simp
  next
    case False
    then have ne: "find_all (name_in [''img'']) soup \<noteq> []" using s by auto
    have tot: "\<forall>x \<in> set sized. \<exists>a. area_key x = Inr a" using assms by (simp add: sized_def)
    obtain rest where r: "sort_reverse area_key sized = Inr (the (first_max attr_area sized) # rest)"
      using sort_reverse_first [OF tot False] unfolding attr_area_def by blast
    obtain c where c: "first_max attr_area sized = Some c"
      using False first_max_None [of attr_area sized] by (cases "first_max attr_area sized") auto
    show ?thesis
      using l False ne r c
      unfolding find_above_fold_elements_def Let_def s sized_def [symmetric]
      by simp
  qed
qed




text \<open>
  C6, as the code has it. When the sized images carry integers, the result is the
  concatenation, in this order, of: the \<open>header\<close> and \<open>nav\<close> elements in document
  order; the elements with a class token containing \<open>hero\<close> or \<open>banner\<close>; the first
  three \<open>section\<close> or \<open>div\<close> elements with a class token containing \<open>section\<close>; the
  dominant sized image when there is one. Nothing is removed from the concatenation:
  an element that qualifies in several steps is listed once for each.
\<close>

theorem above_fold_order:
  assumes "\<forall>img \<in> set (sized_images soup). \<exists>a. area_key img = Inr a"
  shows "find_above_fold_elements soup =
           Inr (filter (name_in [''header'', ''nav'']) (tags soup)
                @ filter (class_token_contains [''hero'', ''banner'']) (tags soup)
                @ take 3 (filter (\<lambda>e. name_in [''section'', ''div''] e
                                       \<and> class_token_contains [''section''] e) (tags soup))
                @ (case first_max attr_area (sized_images soup) of
                     None \<Rightarrow> [] | Some c \<Rightarrow> [c]))"
  using find_above_fold_elements_eq [OF assms] by (simp add: landmarks_def)

theorem above_fold_order_witness:
  "find_above_fold_elements example_page =
     Inr [Tag 1 ''header'' [(''class'', Toks [''site'', ''Big-HERO''])]
            [Tag 2 ''img'' [(''src'', Str ''a.png'')] [],
             Tag 3 ''img'' [(''width'', Str ''100''), (''height'', Str ''100'')] []],
          Tag 1 ''header'' [(''class'', Toks [''site'', ''Big-HERO''])]
            [Tag 2 ''img'' [(''src'', Str ''a.png'')] [],
             Tag 3 ''img'' [(''width'', Str ''100''), (''height'', Str ''100'')] []],
          Tag 5 ''div'' [(''class'', Toks [''a-SECTION''])]
            [Tag 6 ''img'' [(''width'', Str ''500''), (''height'', Str ''50'')] [],
             Tag 7 ''img'' [(''width'', Str ''250''), (''height'', Str ''100'')] []],
          Tag 6 ''img'' [(''width'', Str ''500''), (''height'', Str ''50'')] []]"
proof -
  have si: "sized_images example_page =
     [Tag 3 ''img'' [(''width'', Str ''100''), (''height'', Str ''100'')] [],
      Tag 6 ''img'' [(''width'', Str ''500''), (''height'', Str ''50'')] [],
      Tag 7 ''img'' [(''width'', Str ''250''), (''height'', Str ''100'')] []]"
    by code_simp
  have a3: "area_key (Tag 3 ''img'' [(''width'', Str ''100''), (''height'', Str ''100'')] [])
              = Inr 10000" by code_simp
  have a6: "area_key (Tag 6 ''img'' [(''width'', Str ''500''), (''height'', Str ''50'')] [])
              = Inr 25000" by code_simp
  have a7: "area_key (Tag 7 ''img'' [(''width'', Str ''250''), (''height'', Str ''100'')] [])
              = Inr 25000" by code_simp
  have h: "\<forall>img \<in> set (sized_images example_page). \<exists>a. area_key img = Inr a"
    unfolding si using a3 a6 a7 by simp
  have r: "filter (name_in [''header'', ''nav'']) (tags example_page)
           @ filter (class_token_contains [''hero'', ''banner'']) (tags example_page)
           @ take 3 (filter (\<lambda>e. name_in [''section'', ''div''] e
                                  \<and> class_token_contains [''section''] e) (tags example_page))
           @ (case first_max attr_area (sized_images example_page) of
                None \<Rightarrow> [] | Some c \<Rightarrow> [c])
         = [Tag 1 ''header'' [(''class'', Toks [''site'', ''Big-HERO''])]
            [Tag 2 ''img'' [(''src'', Str ''a.png'')] [],
             Tag 3 ''img'' [(''width'', Str ''100''), (''height'', Str ''100'')] []],
          Tag 1 ''header'' [(''class'', Toks [''site'', ''Big-HERO''])]
            [Tag 2 ''img'' [(''src'', Str ''a.png'')] [],
             Tag 3 ''img'' [(''width'', Str ''100''), (''height'', Str ''100'')] []],
          Tag 5 ''div'' [(''class'', Toks [''a-SECTION''])]
            [Tag 6 ''img'' [(''width'', Str ''500''), (''height'', Str ''50'')] [],
             Tag 7 ''img'' [(''width'', Str ''250''), (''height'', Str ''100'')] []],
          Tag 6 ''img'' [(''width'', Str ''500''), (''height'', Str ''50'')] []]"
    by code_simp
  show ?thesis
    using above_fold_order [OF h] unfolding r by simp
qed

text \<open>
  The statement of C6 on duplicates fails: a \<open>header\<close> with the class \<open>hero\<close> is
  returned twice, once as a header and once as a hero section.
\<close>

theorem header_hero_twice:
  "find_above_fold_elements
     (Tag 0 ''[document]'' [] [Tag 1 ''header'' [(''class'', Toks [''hero''])] []])
     = Inr [Tag 1 ''header'' [(''class'', Toks [''hero''])] [],
            Tag 1 ''header'' [(''class'', Toks [''hero''])] []]
   \<and> \<not> distinct (map ident [Tag 1 ''header'' [(''class'', Toks [''hero''])] [],
                              Tag 1 ''header'' [(''class'', Toks [''hero''])] []])"
  by code_simp

section \<open>The transform works on a copy\<close>

lemma ident_in_idents [simp]: "ident t \<in> idents t"
  by (cases t) auto

lemma update_at_absent: "i \<notin> idents t \<Longrightarrow> update_at i f t = t"
  by (induction t) (auto simp: map_idI)

lemma remove_child_absent: "i \<notin> idents t \<Longrightarrow> remove_child i t = t"
proof (induction t)
  case (Tag j n a cs)
  have f: "filter (\<lambda>c. ident c \<noteq> i) cs = cs"
    using Tag.prems by (auto simp: filter_id_conv intro: ident_in_idents)
  have "map (remove_child i) cs = cs"
    using Tag by (auto simp: map_idI)
  then show ?case using f by simp
next
  case (NavigableString j s)
  then show ?case by simp
qed

lemma insert_after_in_absent: "l \<notin> idents t \<Longrightarrow> insert_after_in l new t = t"
proof (induction t)
  case (Tag j n a cs)
  have e: "map (\<lambda>c. if ident c = l then [c, new] else [insert_after_in l new c]) cs
        = map (\<lambda>c. [c]) cs"
    using Tag by (auto intro!: map_cong)
  have c: "concat (map (\<lambda>c. [c]) cs) = cs" by (induction cs) auto
  have "insert_after_in l new (Tag j n a cs) = Tag j n a (concat (map (\<lambda>c. [c]) cs))"
    by (simp only: insert_after_in.simps e)
  then show ?case by (simp only: c)
next
  case (NavigableString j s)
  then show ?case by simp
qed

lemma idents_update_at:
  assumes "\<And>s. idents (f s) \<subseteq> idents s \<union> X"
  shows "idents (update_at i f t) \<subseteq> idents t \<union> X"
proof (induction t)
  case (Tag j n a cs)
  show ?case
  proof (cases "j = i")
    case True
    then show ?thesis using assms [of "Tag j n a cs"] by simp
  next
    case False
    then show ?thesis using Tag by auto
  qed
next
  case (NavigableString j s)
  then show ?case by simp
qed

lemma idents_with_attr [simp]: "idents (with_attr k v t) = idents t"
  by (cases t) auto

lemma idents_with_child: "idents (with_child c t) \<subseteq> idents t \<union> idents c"
  by (cases t) auto

lemma idents_with_first_child: "idents (with_first_child c t) \<subseteq> idents t \<union> idents c"
  by (cases t) auto

lemma idents_remove_child: "idents (remove_child i t) \<subseteq> idents t"
  by (induction t) auto

lemma idents_insert_after_in: "idents (insert_after_in l new t) \<subseteq> idents t \<union> idents new"
  by (induction t) (auto split: if_splits)

lemma idents_descendants: "e \<in> set (descendants t) \<Longrightarrow> idents e \<subseteq> idents t"
  by (induction t) auto

lemma idents_self_or_descendant: "e \<in> set (t # descendants t) \<Longrightarrow> idents e \<subseteq> idents t"
  using idents_descendants by auto

lemma find_Some_member: "find P xs = Some x \<Longrightarrow> P x \<and> x \<in> set xs"
  by (induction xs) (auto split: if_splits)

lemma lookup_Some: "lookup i t = Some e \<Longrightarrow> ident e = i \<and> idents e \<subseteq> idents t"
  unfolding lookup_def
  using find_Some_member [of "\<lambda>e. ident e = i" "t # descendants t" e]
        idents_self_or_descendant [of e t]
  by blast

lemma lookup_absent: "i \<notin> idents t \<Longrightarrow> lookup i t = None"
proof (cases "lookup i t")
  case None
  then show ?thesis by simp
next
  case (Some e)
  assume a: "i \<notin> idents t"
  have "ident e = i" "idents e \<subseteq> idents t" using lookup_Some [OF Some] by auto
  then have "i \<in> idents t" using ident_in_idents [of e] by auto
  then show ?thesis using a by simp
qed

lemma idents_children: "c \<in> set (children p) \<Longrightarrow> idents c \<subseteq> idents p"
  by (cases p) auto

lemma parent_in_Some:
  assumes "parent_in i t = Some p"
  shows "i \<in> idents t \<and> idents p \<subseteq> idents t"
proof -
  have m: "i \<in> set (map ident (children p))" "p \<in> set (t # descendants t)"
    using assms find_Some_member [of "\<lambda>p. i \<in> set (map ident (children p))" "t # descendants t" p]
    unfolding parent_in_def by auto
  then obtain c where c: "c \<in> set (children p)" "ident c = i" by auto
  have "i \<in> idents p" using idents_children [OF c(1)] ident_in_idents [of c] c(2) by auto
  moreover have "idents p \<subseteq> idents t" using m(2) idents_self_or_descendant by blast
  ultimately show ?thesis by auto
qed

lemma parent_in_absent: "i \<notin> idents t \<Longrightarrow> parent_in i t = None"
  using parent_in_Some [of i t] by (cases "parent_in i t") auto

lemma find_all_idents: "e \<in> set (find_all P t) \<Longrightarrow> idents e \<subseteq> idents t"
  unfolding find_all_def using idents_descendants by auto

lemma relabel_bounds:
  "relabel n t = (t', n') \<Longrightarrow> n \<le> n' \<and> (\<forall>i \<in> idents t'. n \<le> i)"
  "relabel_list n ts = (ts', n'') \<Longrightarrow> n \<le> n'' \<and> (\<forall>c \<in> set ts'. \<forall>i \<in> idents c. n \<le> i)"
proof (induction n t and n ts arbitrary: t' n' and ts' n'' rule: relabel_relabel_list.induct)
  case (1 n i nm a cs)
  obtain cs' m where r: "relabel_list (Suc n) cs = (cs', m)" by (cases "relabel_list (Suc n) cs")
  from 1(1) [OF r] have "Suc n \<le> m" "\<forall>c \<in> set cs'. \<forall>i \<in> idents c. Suc n \<le> i" by auto
  moreover have "t' = Tag n nm a cs'" "n' = m" using 1(2) r by auto
  ultimately show ?case by fastforce
next
  case (2 n i s)
  then show ?case by auto
next
  case (3 n)
  then show ?case by auto
next
  case (4 n c cs)
  obtain c' n1 where r1: "relabel n c = (c', n1)" by (cases "relabel n c")
  obtain cs' n2 where r2: "relabel_list n1 cs = (cs', n2)" by (cases "relabel_list n1 cs")
  have a: "n \<le> n1" "\<forall>i \<in> idents c'. n \<le> i" using 4(1) [OF r1] by auto
  have b: "n1 \<le> n2" "\<forall>c \<in> set cs'. \<forall>i \<in> idents c. n1 \<le> i"
    using 4(2) [OF r1 [symmetric] r2] by auto
  have "ts' = c' # cs'" "n'' = n2" using 4(3) r1 r2 by auto
  then show ?case using a b by fastforce
qed

lemma kept_modify:
  assumes k: "kept n0 st0 st"
    and lo: "\<And>t. \<forall>i \<in> idents t. i < n0 \<Longrightarrow> f t = t"
    and hi: "\<And>t. \<forall>i \<in> idents t. n0 \<le> i \<Longrightarrow> \<forall>i \<in> idents (f t). n0 \<le> i"
  shows "kept n0 st0 (modify f st)"
proof -
  have "\<forall>i \<in> idents (self_dom st). i < n0" using k by (simp add: kept_def separated_def)
  then have s: "f (self_dom st) = self_dom st" by (rule lo)
  have "\<forall>i \<in> idents (optimized_dom st). n0 \<le> i" using k by (simp add: kept_def separated_def)
  then have o: "\<forall>i \<in> idents (f (optimized_dom st)). n0 \<le> i" by (rule hi)
  show ?thesis using k s o by (simp add: kept_def separated_def modify_def)
qed

lemma below_absent: "\<forall>j \<in> idents t. j < n0 \<Longrightarrow> n0 \<le> i \<Longrightarrow> i \<notin> idents t"
  by (metis not_le)

lemma kept_set_attr:
  assumes "kept n0 st0 st" "n0 \<le> i"
  shows "kept n0 st0 (set_attr i k v st)"
  unfolding set_attr_def
proof (rule kept_modify [OF assms(1)])
  fix t assume "\<forall>j \<in> idents t. j < n0"
  then show "update_at i (with_attr k v) t = t"
    using assms(2) by (intro update_at_absent) auto
next
  fix t assume a: "\<forall>j \<in> idents t. n0 \<le> j"
  have "idents (update_at i (with_attr k v) t) \<subseteq> idents t \<union> {}"
    by (rule idents_update_at) simp
  then show "\<forall>j \<in> idents (update_at i (with_attr k v) t). n0 \<le> j" using a by auto
qed

lemma kept_insert_first:
  assumes "kept n0 st0 st" "n0 \<le> i" "\<forall>j \<in> idents c. n0 \<le> j"
  shows "kept n0 st0 (insert_first i c st)"
  unfolding insert_first_def
proof (rule kept_modify [OF assms(1)])
  fix t assume "\<forall>j \<in> idents t. j < n0"
  then show "update_at i (with_first_child c) t = t"
    using assms(2) by (intro update_at_absent) auto
next
  fix t assume a: "\<forall>j \<in> idents t. n0 \<le> j"
  have "idents (update_at i (with_first_child c) t) \<subseteq> idents t \<union> idents c"
    by (rule idents_update_at) (rule idents_with_first_child)
  then show "\<forall>j \<in> idents (update_at i (with_first_child c) t). n0 \<le> j"
    using a assms(3) by auto
qed

lemma kept_append_child:
  assumes "kept n0 st0 st" "n0 \<le> i" "\<forall>j \<in> idents c. n0 \<le> j"
  shows "kept n0 st0 (append_child i c st)"
  unfolding append_child_def
proof (rule kept_modify [OF assms(1)])
  fix t assume "\<forall>j \<in> idents t. j < n0"
  then show "update_at i (with_child c) t = t"
    using assms(2) by (intro update_at_absent) auto
next
  fix t assume a: "\<forall>j \<in> idents t. n0 \<le> j"
  have "idents (update_at i (with_child c) t) \<subseteq> idents t \<union> idents c"
    by (rule idents_update_at) (rule idents_with_child)
  then show "\<forall>j \<in> idents (update_at i (with_child c) t). n0 \<le> j"
    using a assms(3) by auto
qed

lemma kept_insert_after:
  assumes "kept n0 st0 st" "n0 \<le> l" "\<forall>j \<in> idents c. n0 \<le> j"
  shows "kept n0 st0 (insert_after l c st)"
  unfolding insert_after_def
proof (rule kept_modify [OF assms(1)])
  fix t assume "\<forall>j \<in> idents t. j < n0"
  then show "insert_after_in l c t = t"
    using assms(2) by (intro insert_after_in_absent) auto
next
  fix t assume a: "\<forall>j \<in> idents t. n0 \<le> j"
  then show "\<forall>j \<in> idents (insert_after_in l c t). n0 \<le> j"
    using idents_insert_after_in [of l c t] assms(3) by auto
qed

lemma kept_extract_tag:
  assumes "kept n0 st0 st" "n0 \<le> i"
  shows "kept n0 st0 (extract_tag i st)"
  unfolding extract_tag_def
proof (rule kept_modify [OF assms(1)])
  fix t assume "\<forall>j \<in> idents t. j < n0"
  then show "remove_child i t = t"
    using assms(2) by (intro remove_child_absent) auto
next
  fix t assume a: "\<forall>j \<in> idents t. n0 \<le> j"
  then show "\<forall>j \<in> idents (remove_child i t). n0 \<le> j"
    using idents_remove_child [of i t] by auto
qed

lemma kept_new_tag:
  assumes "kept n0 st0 st" "new_tag nm st = (t, st')"
  shows "kept n0 st0 st' \<and> (\<forall>j \<in> idents t. n0 \<le> j) \<and> n0 \<le> ident t
         \<and> optimized_dom st' = optimized_dom st"
  using assms by (auto simp: new_tag_def kept_def separated_def)

lemma kept_new_string:
  assumes "kept n0 st0 st" "new_string s st = (t, st')"
  shows "kept n0 st0 st' \<and> (\<forall>j \<in> idents t. n0 \<le> j)"
  using assms by (auto simp: new_string_def kept_def separated_def)

lemma above_deref:
  assumes "kept n0 st0 st" "n0 \<le> i" "deref st i = Some e"
  shows "\<forall>j \<in> idents e. n0 \<le> j"
proof -
  have "\<forall>j \<in> idents (self_dom st). j < n0" using assms(1) by (simp add: kept_def separated_def)
  then have "i \<notin> idents (self_dom st)" using assms(2) by (rule below_absent)
  then have "lookup i (self_dom st) = None" by (rule lookup_absent)
  then have "lookup i (optimized_dom st) = Some e" using assms(3) by (simp add: deref_def)
  then have "idents e \<subseteq> idents (optimized_dom st)" using lookup_Some by blast
  then show ?thesis using assms(1) by (auto simp: kept_def separated_def)
qed

lemma above_parent:
  assumes "kept n0 st0 st" "n0 \<le> i" "parent_of st i = Some p"
  shows "n0 \<le> ident p"
proof -
  have "\<forall>j \<in> idents (self_dom st). j < n0" using assms(1) by (simp add: kept_def separated_def)
  then have "i \<notin> idents (self_dom st)" using assms(2) by (rule below_absent)
  then have "parent_in i (self_dom st) = None" by (rule parent_in_absent)
  then have "parent_in i (optimized_dom st) = Some p" using assms(3) by (simp add: parent_of_def)
  then have "idents p \<subseteq> idents (optimized_dom st)" using parent_in_Some by blast
  then have "ident p \<in> idents (optimized_dom st)" using ident_in_idents [of p] by auto
  then show ?thesis using assms(1) by (auto simp: kept_def separated_def)
qed

lemma above_find:
  assumes "kept n0 st0 st" "e \<in> set (find_all P (optimized_dom st))"
  shows "n0 \<le> ident e"
proof -
  have "ident e \<in> idents (optimized_dom st)"
    using find_all_idents [OF assms(2)] ident_in_idents [of e] by auto
  then show ?thesis using assms(1) by (auto simp: kept_def separated_def)
qed

lemma above_root:
  assumes "kept n0 st0 st"
  shows "n0 \<le> ident (optimized_dom st)"
  using assms ident_in_idents [of "optimized_dom st"] by (auto simp: kept_def separated_def)

lemma idents_with_child_above:
  "\<forall>j \<in> idents t. n0 \<le> j \<Longrightarrow> \<forall>j \<in> idents c. n0 \<le> j \<Longrightarrow> \<forall>j \<in> idents (with_child c t). n0 \<le> j"
  using idents_with_child [of c t] by auto

lemma kept_copy_dom:
  assumes "\<forall>i \<in> idents soup. i < n"
  shows "kept n (copy_dom reparse soup n) (copy_dom reparse soup n)
         \<and> self_dom (copy_dom reparse soup n) = soup"
proof -
  obtain t' n' where r: "relabel n (reparse soup) = (t', n')" by (cases "relabel n (reparse soup)")
  have "n \<le> n'" "\<forall>i \<in> idents t'. n \<le> i" using relabel_bounds(1) [OF r] by auto
  then show ?thesis using assms r by (simp add: copy_dom_def kept_def separated_def)
qed

lemma kept_ensure_head:
  assumes k: "kept n0 st0 st" and e: "ensure_head st = (h, st')"
  shows "kept n0 st0 st' \<and> n0 \<le> h"
proof (cases "find_all (name_in [''head'']) (optimized_dom st)")
  case (Cons hd tl)
  then have "hd \<in> set (find_all (name_in [''head'']) (optimized_dom st))" by simp
  then have "n0 \<le> ident hd" using above_find [OF k] by blast
  then show ?thesis using k e Cons by (simp add: ensure_head_def)
next
  case Nil
  obtain head st1 where n1: "new_tag ''head'' st = (head, st1)" by (cases "new_tag ''head'' st")
  have k1: "kept n0 st0 st1" and h1: "\<forall>j \<in> idents head. n0 \<le> j" "n0 \<le> ident head"
    using kept_new_tag [OF k n1] by auto
  show ?thesis
  proof (cases "find_all (name_in [''html'']) (optimized_dom st1)")
    case (Cons html tl)
    then have "html \<in> set (find_all (name_in [''html'']) (optimized_dom st1))" by simp
    then have "n0 \<le> ident html" using above_find [OF k1] by blast
    then have "kept n0 st0 (insert_first (ident html) head st1)"
      using kept_insert_first [OF k1 _ h1(1)] by blast
    then show ?thesis using e Nil n1 Cons h1(2) by (simp add: ensure_head_def)
  next
    case Nil2: Nil
    obtain html st2 where n2: "new_tag ''html'' st1 = (html, st2)" by (cases "new_tag ''html'' st1")
    have k2: "kept n0 st0 st2" and h2: "\<forall>j \<in> idents html. n0 \<le> j"
      using kept_new_tag [OF k1 n2] by auto
    have c: "\<forall>j \<in> idents (with_child head html). n0 \<le> j"
      using idents_with_child_above [OF h2 h1(1)] .
    have "kept n0 st0 (append_child (ident (optimized_dom st2)) (with_child head html) st2)"
      using kept_append_child [OF k2 above_root [OF k2] c] .
    then show ?thesis using e Nil n1 Nil2 n2 h1(2) by (simp add: ensure_head_def)
  qed
qed

lemma kept_inline_critical_css:
  assumes k: "kept n0 st0 st" and h: "n0 \<le> head"
  shows "kept n0 st0 (inline_critical_css critical head st)"
proof (cases critical)
  case None
  then show ?thesis using k by (simp add: inline_critical_css_def)
next
  case (Some css)
  obtain style st1 where n1: "new_tag ''style'' st = (style, st1)" by (cases "new_tag ''style'' st")
  obtain tx st2 where n2: "new_string css st1 = (tx, st2)" by (cases "new_string css st1")
  have k1: "kept n0 st0 st1" and h1: "\<forall>j \<in> idents style. n0 \<le> j"
    using kept_new_tag [OF k n1] by auto
  have k2: "kept n0 st0 st2" and h2: "\<forall>j \<in> idents tx. n0 \<le> j"
    using kept_new_string [OF k1 n2] by auto
  have "kept n0 st0 (insert_first head (with_child tx style) st2)"
    using kept_insert_first [OF k2 h idents_with_child_above [OF h1 h2]] .
  then show ?thesis using Some n1 n2 by (simp add: inline_critical_css_def)
qed

lemma kept_use_local_path:
  assumes "kept n0 st0 st" "n0 \<le> tag"
  shows "kept n0 st0 (use_local_path k tag rs st)"
  using assms by (induction rs arbitrary: st) (auto simp: kept_set_attr)

lemma kept_preload_links:
  assumes "kept n0 st0 st" "\<forall>l \<in> set links. n0 \<le> l"
  shows "kept n0 st0 (preload_links rs links st)"
  using assms
  by (induction links arbitrary: st) (auto simp: kept_set_attr kept_use_local_path)

lemma kept_noscript_fallbacks:
  assumes "kept n0 st0 st" "\<forall>l \<in> set links. n0 \<le> l"
  shows "kept n0 st0 (snd (noscript_fallbacks links st))"
  using assms
proof (induction links arbitrary: st)
  case Nil
  then show ?case by simp
next
  case (Cons link links)
  obtain noscript st1 where n1: "new_tag ''noscript'' st = (noscript, st1)"
    by (cases "new_tag ''noscript'' st")
  obtain fl st2 where n2: "new_tag ''link'' st1 = (fl, st2)" by (cases "new_tag ''link'' st1")
  have k1: "kept n0 st0 st1" and h1: "\<forall>j \<in> idents noscript. n0 \<le> j"
    using kept_new_tag [OF Cons.prems(1) n1] by auto
  have k2: "kept n0 st0 st2" and h2: "\<forall>j \<in> idents fl. n0 \<le> j"
    using kept_new_tag [OF k1 n2] by auto
  have l: "n0 \<le> link" and ls: "\<forall>l \<in> set links. n0 \<le> l" using Cons.prems(2) by auto
  show ?case
  proof (cases "Option.bind (deref st2 link) (\<lambda>l. get_attr l ''href'')")
    case None
    then show ?thesis using n1 n2 k2 by simp
  next
    case (Some href)
    show ?thesis
    proof (cases "parent_of st2 link")
      case None
      then show ?thesis using n1 n2 k2 Some by simp
    next
      case Some2: (Some p)
      let ?new = "with_child (with_attr ''href'' href (with_attr ''rel'' (Str ''stylesheet'') fl)) noscript"
      have "\<forall>j \<in> idents ?new. n0 \<le> j"
        using idents_with_child_above [OF h1, of "with_attr ''href'' href (with_attr ''rel'' (Str ''stylesheet'') fl)"] h2
        by simp
      then have "kept n0 st0 (insert_after link ?new st2)"
        using kept_insert_after [OF k2 l] by blast
      from Cons.IH [OF this ls] show ?thesis using n1 n2 Some Some2 by simp
    qed
  qed
qed

lemma kept_defer_scripts:
  assumes "kept n0 st0 st" "\<forall>l \<in> set scripts. n0 \<le> l"
  shows "kept n0 st0 (defer_scripts rs scripts st)"
  using assms
  by (induction scripts arbitrary: st) (auto simp: kept_set_attr kept_use_local_path)

lemma kept_wrap_in_picture:
  assumes k: "kept n0 st0 st" and i: "n0 \<le> img"
  shows "kept n0 st0 (wrap_in_picture webp img st)"
proof -
  obtain picture st1 where n1: "new_tag ''picture'' st = (picture, st1)"
    by (cases "new_tag ''picture'' st")
  obtain source st2 where n2: "new_tag ''source'' st1 = (source, st2)"
    by (cases "new_tag ''source'' st1")
  have k1: "kept n0 st0 st1" and h1: "\<forall>j \<in> idents picture. n0 \<le> j"
    using kept_new_tag [OF k n1] by auto
  have k2: "kept n0 st0 st2" and h2: "\<forall>j \<in> idents source. n0 \<le> j"
    using kept_new_tag [OF k1 n2] by auto
  let ?source = "with_attr ''type'' (Str ''image/webp'') (with_attr ''srcset'' (Str webp) source)"
  let ?p1 = "with_child ?source picture"
  let ?pic = "case deref st2 img of None \<Rightarrow> ?p1 | Some t \<Rightarrow> with_child t ?p1"
  have p1: "\<forall>j \<in> idents ?p1. n0 \<le> j"
    using idents_with_child_above [OF h1, of ?source] h2 by simp
  have pic: "\<forall>j \<in> idents ?pic. n0 \<le> j"
  proof (cases "deref st2 img")
    case None
    then show ?thesis using p1 by simp
  next
    case (Some t)
    have "\<forall>j \<in> idents t. n0 \<le> j" using above_deref [OF k2 i Some] .
    then show ?thesis using Some idents_with_child_above [OF p1] by simp
  qed
  have k3: "kept n0 st0 (extract_tag img st2)" using kept_extract_tag [OF k2 i] .
  show ?thesis
  proof (cases "parent_of st2 img")
    case None
    then show ?thesis using n1 n2 k3 by (simp add: wrap_in_picture_def Let_def)
  next
    case (Some p)
    have "n0 \<le> ident p" using above_parent [OF k2 i Some] .
    then have "kept n0 st0 (append_child (ident p) ?pic (extract_tag img st2))"
      using kept_append_child [OF k3 _ pic] by blast
    then show ?thesis using n1 n2 Some by (simp add: wrap_in_picture_def Let_def)
  qed
qed

lemma kept3_record_dimensions:
  assumes "kept3 n0 st0 s" "n0 \<le> img"
  shows "kept3 n0 st0 (record_dimensions img pos w h s)"
  using assms
  by (cases s) (auto simp: kept3_def record_dimensions_def Let_def kept_set_attr lcp_above_def)

lemma kept3_image_resource_step:
  assumes "kept3 n0 st0 s" "n0 \<le> img"
  shows "kept3 n0 st0 (image_resource_step img pos r s)"
proof -
  obtain st l a where s: "s = (st, l, a)" by (cases s)
  define s1 where "s1 = (set_attr img ''src'' (Str (the (local_path r))) st, l, a)"
  have k1: "kept3 n0 st0 s1"
    using assms unfolding s1_def s by (simp add: kept3_def kept_set_attr)
  define s2 where "s2 = (case (width r, height r) of
                           (Some w, Some h) \<Rightarrow> record_dimensions img pos w h s1
                         | _ \<Rightarrow> s1)"
  have k2: "kept3 n0 st0 s2"
    unfolding s2_def using k1 kept3_record_dimensions [OF k1 assms(2)]
    by (auto split: option.splits)
  obtain st2 l2 a2 where s2e: "s2 = (st2, l2, a2)" by (cases s2)
  have k3: "kept3 n0 st0 (case webp_path r of None \<Rightarrow> (st2, l2, a2)
                          | Some webp \<Rightarrow> (wrap_in_picture webp img st2, l2, a2))"
    using k2 assms(2) unfolding s2e
    by (auto simp: kept3_def kept_wrap_in_picture split: option.splits)
  have "image_resource_step img pos r s
        = (case webp_path r of None \<Rightarrow> (st2, l2, a2)
           | Some webp \<Rightarrow> (wrap_in_picture webp img st2, l2, a2))"
    using s2e unfolding image_resource_step_def s s2_def s1_def by simp
  then show ?thesis using k3 by simp
qed

lemma kept3_image_resource_loop:
  assumes "kept3 n0 st0 s" "n0 \<le> img"
  shows "kept3 n0 st0 (image_resource_loop img pos rs s)"
  using assms
  by (induction rs arbitrary: s) (auto simp: kept3_image_resource_step)

lemma kept3_images_loop:
  assumes "kept3 n0 st0 s" "\<forall>i \<in> set imgs. n0 \<le> i"
  shows "kept3 n0 st0 (images_loop str_len rs imgs s)"
  using assms
  by (induction imgs arbitrary: s) (auto simp: kept3_image_resource_loop split: option.splits)

lemma kept_mark_lcp:
  assumes k: "kept n0 st0 st" and h: "n0 \<le> head" and l: "lcp_above n0 lcp"
  shows "kept n0 st0 (mark_lcp head lcp st)"
proof (cases lcp)
  case None
  then show ?thesis using k by (simp add: mark_lcp_def)
next
  case (Some c)
  then have c: "n0 \<le> c" using l by (simp add: lcp_above_def)
  define st1 where "st1 = set_attr c ''fetchpriority'' (Str ''high'') st"
  have k1: "kept n0 st0 st1" unfolding st1_def using k c by (rule kept_set_attr)
  obtain preload st2 where n: "new_tag ''link'' st1 = (preload, st2)" by (cases "new_tag ''link'' st1")
  have k2: "kept n0 st0 st2" and h2: "\<forall>j \<in> idents preload. n0 \<le> j"
    using kept_new_tag [OF k1 n] by auto
  have "kept n0 st0 (insert_first head
          (with_attr ''as'' (Str ''image'')
             (with_attr ''href'' (the (Option.bind (deref st1 c) (\<lambda>t. get_attr t ''src'')))
                (with_attr ''rel'' (Str ''preload'') preload))) st2)"
    using kept_insert_first [OF k2 h] h2 by simp
  then show ?thesis using Some k1 n unfolding st1_def by (simp add: mark_lcp_def Let_def)
qed

lemma kept_lazy_images:
  assumes "kept n0 st0 st" "\<forall>i \<in> set imgs. n0 \<le> i"
  shows "kept n0 st0 (lazy_images lcp imgs st)"
  using assms by (induction imgs arbitrary: st) (auto simp: kept_set_attr)

lemma kept_resource_hints:
  assumes "kept n0 st0 st" "n0 \<le> head"
  shows "kept n0 st0 (resource_hints head domains st)"
  using assms
proof (induction domains arbitrary: st)
  case Nil
  then show ?case by simp
next
  case (Cons d ds)
  obtain pc st1 where n1: "new_tag ''link'' st = (pc, st1)" by (cases "new_tag ''link'' st")
  have k1: "kept n0 st0 st1" and h1: "\<forall>j \<in> idents pc. n0 \<le> j"
    using kept_new_tag [OF Cons.prems(1) n1] by auto
  define st2 where "st2 = insert_first head
                      (with_attr ''crossorigin'' (Str [])
                         (with_attr ''href'' (Str (''https://'' @ d))
                            (with_attr ''rel'' (Str ''preconnect'') pc))) st1"
  have k2: "kept n0 st0 st2"
    unfolding st2_def using kept_insert_first [OF k1 Cons.prems(2)] h1 by simp
  obtain dp st3 where n3: "new_tag ''link'' st2 = (dp, st3)" by (cases "new_tag ''link'' st2")
  have k3: "kept n0 st0 st3" and h3: "\<forall>j \<in> idents dp. n0 \<le> j"
    using kept_new_tag [OF k2 n3] by auto
  have k4: "kept n0 st0 (insert_first head
                       (with_attr ''href'' (Str (''https://'' @ d))
                          (with_attr ''rel'' (Str ''dns-prefetch'') dp)) st3)"
    using kept_insert_first [OF k3 Cons.prems(2)] h3 by simp
  show ?case
    using Cons.IH [OF k4 Cons.prems(2)] n1 n3 unfolding st2_def by (simp add: Let_def)
qed

lemma kept_add_cache_meta:
  assumes k: "kept n0 st0 st" and h: "n0 \<le> head"
  shows "kept n0 st0 (add_cache_meta head st)"
proof -
  obtain m st1 where n1: "new_tag ''meta'' st = (m, st1)" by (cases "new_tag ''meta'' st")
  have k1: "kept n0 st0 st1" and h1: "\<forall>j \<in> idents m. n0 \<le> j"
    using kept_new_tag [OF k n1] by auto
  show ?thesis
    using kept_append_child [OF k1 h] h1 n1 by (simp add: add_cache_meta_def)
qed

lemma above_find_idents:
  assumes "kept n0 st0 st"
  shows "\<forall>i \<in> set (map ident (find_all P (optimized_dom st))). n0 \<le> i"
  using above_find [OF assms] by auto

lemma kept_optimize_html:
  assumes "\<forall>i \<in> idents soup. i < n"
  shows "kept n (copy_dom reparse soup n)
           (fst (snd (optimize_html reparse str_len netloc set_order rs critical soup n)))"
proof -
  define st0 where "st0 = copy_dom reparse soup n"
  have k0: "kept n st0 st0" unfolding st0_def using kept_copy_dom [OF assms] by simp
  obtain head st1 where e: "ensure_head st0 = (head, st1)" by (cases "ensure_head st0")
  have k1: "kept n st0 st1" and h: "n \<le> head" using kept_ensure_head [OF k0 e] by auto
  define st2 where "st2 = inline_critical_css critical head st1"
  have k2: "kept n st0 st2" unfolding st2_def using k1 h by (rule kept_inline_critical_css)
  define css_links where "css_links = map ident
       (find_all (\<lambda>e. name_in [''link''] e \<and> attr_is ''rel'' ''stylesheet'' e) (optimized_dom st2))"
  have l: "\<forall>i \<in> set css_links. n \<le> i" unfolding css_links_def by (rule above_find_idents [OF k2])
  define st3 where "st3 = preload_links (res_css rs) css_links st2"
  have k3: "kept n st0 st3" unfolding st3_def using k2 l by (rule kept_preload_links)
  obtain err st4 where f: "noscript_fallbacks css_links st3 = (err, st4)"
    by (cases "noscript_fallbacks css_links st3")
  have k4: "kept n st0 st4" using kept_noscript_fallbacks [OF k3 l] f by simp
  show ?thesis
  proof (cases err)
    case (Some x)
    then have "fst (snd (optimize_html reparse str_len netloc set_order rs critical soup n)) = st4"
      using e f
      unfolding optimize_html_def Let_def st0_def [symmetric] st2_def css_links_def st3_def
      by simp
    then show ?thesis using k4 by (simp add: st0_def)
  next
    case None
    define scripts where "scripts = map ident
        (find_all (\<lambda>e. name_in [''script''] e \<and> has_attr e ''src'') (optimized_dom st4))"
    define st5 where "st5 = defer_scripts (res_js rs) scripts st4"
    have k5: "kept n st0 st5"
      unfolding st5_def scripts_def using k4 above_find_idents [OF k4] by (rule kept_defer_scripts)
    define imgs where "imgs = map ident
        (find_all (\<lambda>e. name_in [''img''] e \<and> has_attr e ''src'') (optimized_dom st5))"
    have i: "\<forall>i \<in> set imgs. n \<le> i" unfolding imgs_def by (rule above_find_idents [OF k5])
    obtain st6 lcp area where g: "images_loop str_len (res_images rs) imgs (st5, None, 0) = (st6, lcp, area)"
      by (cases "images_loop str_len (res_images rs) imgs (st5, None, 0)")
    have "kept3 n st0 (st5, None, 0)" using k5 by (simp add: kept3_def lcp_above_def)
    from kept3_images_loop [OF this i, of str_len "res_images rs"]
    have k6: "kept n st0 st6" and la: "lcp_above n lcp" using g by (auto simp: kept3_def)
    have k7: "kept n st0 (mark_lcp head lcp st6)" using k6 h la by (rule kept_mark_lcp)
    have k8: "kept n st0 (lazy_images lcp imgs (mark_lcp head lcp st6))"
      using k7 i by (rule kept_lazy_images)
    have k9: "kept n st0 (resource_hints head (set_order (added_domains netloc rs))
                            (lazy_images lcp imgs (mark_lcp head lcp st6)))"
      using k8 h by (rule kept_resource_hints)
    have k10: "kept n st0 (add_cache_meta head
                 (resource_hints head (set_order (added_domains netloc rs))
                    (lazy_images lcp imgs (mark_lcp head lcp st6))))"
      using k9 h by (rule kept_add_cache_meta)
    have "fst (snd (optimize_html reparse str_len netloc set_order rs critical soup n))
          = add_cache_meta head
                 (resource_hints head (set_order (added_domains netloc rs))
                    (lazy_images lcp imgs (mark_lcp head lcp st6)))"
      using e f None g
      unfolding optimize_html_def Let_def st0_def [symmetric] st2_def css_links_def st3_def
                scripts_def st5_def imgs_def
      by simp
    then show ?thesis using k10 by (simp add: st0_def)
  qed
qed

text \<open>
  C4. \<open>_optimize_html\<close> leaves the tree of \<open>self.dom\<close> as it was: when the objects
  of that tree are the ones that exist before the call (identities below \<open>n\<close>, the
  identity of the next new object), the tree of \<open>self.dom\<close> after the call, whether
  the call returns or raises, is the tree before it, and the tree of \<open>optimized_dom\<close>,
  which is written out, shares no object with it. Every write of the function goes to
  an object of the new parse or to a tag made by \<open>new_tag\<close>.
\<close>

theorem optimize_html_nondestructive:
  assumes "\<forall>i \<in> idents soup. i < n"
  shows "self_dom (fst (snd (optimize_html reparse str_len netloc set_order rs critical soup n))) = soup
       \<and> (\<forall>i \<in> idents (optimized_dom
                 (fst (snd (optimize_html reparse str_len netloc set_order rs critical soup n)))).
             i \<notin> idents soup)"
proof -
  have k: "kept n (copy_dom reparse soup n)
             (fst (snd (optimize_html reparse str_len netloc set_order rs critical soup n)))"
    using assms by (rule kept_optimize_html)
  have s: "self_dom (fst (snd (optimize_html reparse str_len netloc set_order rs critical soup n))) = soup"
    using k kept_copy_dom [OF assms, of reparse] by (simp add: kept_def)
  have "\<forall>i \<in> idents (optimized_dom
                 (fst (snd (optimize_html reparse str_len netloc set_order rs critical soup n)))). n \<le> i"
    using k by (simp add: kept_def separated_def)
  then have "\<forall>i \<in> idents (optimized_dom
                 (fst (snd (optimize_html reparse str_len netloc set_order rs critical soup n)))).
               i \<notin> idents soup"
    using assms by (metis not_le)
  then show ?thesis using s by simp
qed

theorem optimize_html_nondestructive_witness:
  "self_dom (fst (snd (optimize_html (\<lambda>t. t) (\<lambda>ts. 2) host_of remdups shop_resources
                         (Some ''x{}'') shop_page 9))) = shop_page"
proof -
  have h: "\<forall>i \<in> idents shop_page. i < 9" by (simp add: shop_page_def)
  show ?thesis using optimize_html_nondestructive [OF h] by blast
qed

section \<open>The LCP candidate of the transform\<close>

lemma lcp_justified_record_dimensions:
  assumes "lcp_justified rs s" "r \<in> set rs" "local_path r \<noteq> None"
    "width r = Some w" "height r = Some h"
  shows "lcp_justified rs (record_dimensions img pos w h s)"
proof -
  obtain st l a where s: "s = (st, l, a)" by (cases s)
  have "recorded_area rs (w * h)" using assms(2-5) unfolding recorded_area_def by blast
  then show ?thesis
    using assms(1) unfolding s by (auto simp: lcp_justified_def record_dimensions_def Let_def)
qed

lemma lcp_justified_image_resource_step:
  assumes j: "lcp_justified rs s" and r: "r \<in> set rs" "local_path r \<noteq> None"
  shows "lcp_justified rs (image_resource_step img pos r s)"
proof -
  obtain st l a where s: "s = (st, l, a)" by (cases s)
  define s1 where "s1 = (set_attr img ''src'' (Str (the (local_path r))) st, l, a)"
  have j1: "lcp_justified rs s1" using j unfolding s1_def s by (simp add: lcp_justified_def)
  define s2 where "s2 = (case (width r, height r) of
                           (Some w, Some h) \<Rightarrow> record_dimensions img pos w h s1
                         | _ \<Rightarrow> s1)"
  have j2: "lcp_justified rs s2"
    unfolding s2_def using j1 lcp_justified_record_dimensions [OF j1 r]
    by (auto split: option.splits)
  obtain st2 l2 a2 where s2e: "s2 = (st2, l2, a2)" by (cases s2)
  have j3: "lcp_justified rs (case webp_path r of None \<Rightarrow> (st2, l2, a2)
                          | Some webp \<Rightarrow> (wrap_in_picture webp img st2, l2, a2))"
    using j2 unfolding s2e by (auto simp: lcp_justified_def split: option.splits)
  have "image_resource_step img pos r s
        = (case webp_path r of None \<Rightarrow> (st2, l2, a2)
           | Some webp \<Rightarrow> (wrap_in_picture webp img st2, l2, a2))"
    using s2e unfolding image_resource_step_def s s2_def s1_def by simp
  then show ?thesis using j3 by simp
qed

lemma lcp_justified_image_resource_loop:
  assumes "lcp_justified rs s" "set rs' \<subseteq> set rs"
  shows "lcp_justified rs (image_resource_loop img pos rs' s)"
  using assms
  by (induction rs' arbitrary: s) (auto simp: lcp_justified_image_resource_step)

lemma lcp_justified_images_loop:
  assumes "lcp_justified rs s"
  shows "lcp_justified rs (images_loop str_len rs imgs s)"
  using assms
  by (induction imgs arbitrary: s)
     (auto simp: lcp_justified_image_resource_loop split: option.splits)

lemma optimize_html_lcp:
  "\<exists>st a. snd (snd (optimize_html reparse str_len netloc set_order rs critical soup n)) = None
      \<or> lcp_justified (res_images rs)
           (st, snd (snd (optimize_html reparse str_len netloc set_order rs critical soup n)), a)"
proof -
  define st0 where "st0 = copy_dom reparse soup n"
  obtain head st1 where e: "ensure_head st0 = (head, st1)" by (cases "ensure_head st0")
  define st2 where "st2 = inline_critical_css critical head st1"
  define css_links where "css_links = map ident
       (find_all (\<lambda>e. name_in [''link''] e \<and> attr_is ''rel'' ''stylesheet'' e) (optimized_dom st2))"
  define st3 where "st3 = preload_links (res_css rs) css_links st2"
  obtain err st4 where f: "noscript_fallbacks css_links st3 = (err, st4)"
    by (cases "noscript_fallbacks css_links st3")
  show ?thesis
  proof (cases err)
    case (Some x)
    then have "snd (snd (optimize_html reparse str_len netloc set_order rs critical soup n)) = None"
      using e f
      unfolding optimize_html_def Let_def st0_def [symmetric] st2_def css_links_def st3_def
      by simp
    then show ?thesis by simp
  next
    case None
    define scripts where "scripts = map ident
        (find_all (\<lambda>e. name_in [''script''] e \<and> has_attr e ''src'') (optimized_dom st4))"
    define st5 where "st5 = defer_scripts (res_js rs) scripts st4"
    define imgs where "imgs = map ident
        (find_all (\<lambda>e. name_in [''img''] e \<and> has_attr e ''src'') (optimized_dom st5))"
    obtain st6 lcp area where g: "images_loop str_len (res_images rs) imgs (st5, None, 0) = (st6, lcp, area)"
      by (cases "images_loop str_len (res_images rs) imgs (st5, None, 0)")
    have "lcp_justified (res_images rs) (st5, None, 0)" by (simp add: lcp_justified_def)
    from lcp_justified_images_loop [OF this, of str_len imgs]
    have j: "lcp_justified (res_images rs) (st6, lcp, area)" using g by simp
    have "snd (snd (optimize_html reparse str_len netloc set_order rs critical soup n)) = lcp"
      using e f None g
      unfolding optimize_html_def Let_def st0_def [symmetric] st2_def css_links_def st3_def
                scripts_def st5_def imgs_def
      by simp
    then show ?thesis using j by blast
  qed
qed

lemma scan_areas_append: "scan_areas (xs @ ys) s = scan_areas ys (scan_areas xs s)"
  by (induction xs arbitrary: s) auto

lemma snd_record_dimensions:
  "snd (record_dimensions img pos w h s) =
     (if pos < viewport_height \<and> snd (snd s) < w * h then (Some img, w * h) else snd s)"
  by (cases s) (auto simp: record_dimensions_def Let_def)

lemma snd_image_resource_step:
  "snd (image_resource_step img pos r s) =
     scan_areas (case (width r, height r) of
                   (Some w, Some h) \<Rightarrow> if pos < viewport_height then [(img, w * h)] else []
                 | _ \<Rightarrow> []) (snd s)"
proof -
  obtain st l a where s: "s = (st, l, a)" by (cases s)
  define s1 where "s1 = (set_attr img ''src'' (Str (the (local_path r))) st, l, a)"
  define s2 where "s2 = (case (width r, height r) of
                           (Some w, Some h) \<Rightarrow> record_dimensions img pos w h s1
                         | _ \<Rightarrow> s1)"
  have a: "snd s2 = scan_areas (case (width r, height r) of
                   (Some w, Some h) \<Rightarrow> if pos < viewport_height then [(img, w * h)] else []
                 | _ \<Rightarrow> []) (l, a)"
    unfolding s2_def s1_def by (auto simp: snd_record_dimensions split: option.splits)
  obtain st2 l2 a2 where s2e: "s2 = (st2, l2, a2)" by (cases s2)
  have "image_resource_step img pos r s
        = (case webp_path r of None \<Rightarrow> (st2, l2, a2)
           | Some webp \<Rightarrow> (wrap_in_picture webp img st2, l2, a2))"
    using s2e unfolding image_resource_step_def s s2_def s1_def by simp
  then have "snd (image_resource_step img pos r s) = snd s2"
    unfolding s2e by (simp split: option.splits)
  then show ?thesis using a s by simp
qed

lemma snd_image_resource_loop:
  "snd (image_resource_loop img pos rs s) = scan_areas (compared_in_resources img pos rs s) (snd s)"
  by (induction rs arbitrary: s) (auto simp: scan_areas_append snd_image_resource_step)

lemma snd_images_loop:
  "snd (images_loop str_len rs imgs s) = scan_areas (compared_areas str_len rs imgs s) (snd s)"
  by (induction imgs arbitrary: s)
     (auto simp: scan_areas_append snd_image_resource_loop split: option.splits)

lemma first_max_upper:
  assumes "first_max f xs = Some y"
  shows "\<forall>x \<in> set xs. f x \<le> f y"
proof -
  obtain pre post where "xs = pre @ y # post" "\<forall>x \<in> set pre. f x < f y"
      "\<forall>x \<in> set post. f x \<le> f y"
    using first_max_split [OF assms] by blast
  then show ?thesis by auto
qed

lemma first_max_filter_above:
  "first_max f (filter (\<lambda>x. b < f x) xs) =
     (case first_max f xs of
        None \<Rightarrow> None
      | Some y \<Rightarrow> if b < f y then Some y else None)"
proof (induction xs)
  case Nil
  then show ?case by simp
next
  case (Cons x xs)
  show ?case
  proof (cases "first_max f xs")
    case None
    then have "xs = []" by (simp add: first_max_None)
    then show ?thesis by simp
  next
    case (Some y)
    have u: "\<forall>z \<in> set xs. f z \<le> f y" using first_max_upper [OF Some] .
    show ?thesis
    proof (cases "b < f y")
      case True
      then show ?thesis using Cons Some by auto
    next
      case False
      then have e: "filter (\<lambda>x. b < f x) xs = []" using u by (auto simp: filter_empty_conv)
      show ?thesis using Some False e by auto
    qed
  qed
qed

lemma scan_areas_first_max:
  "scan_areas xs (l, a) =
     (case first_max snd (filter (\<lambda>p. a < snd p) xs) of
        None \<Rightarrow> (l, a)
      | Some p \<Rightarrow> (Some (fst p), snd p))"
proof (induction xs arbitrary: l a)
  case Nil
  then show ?case by simp
next
  case (Cons p ps)
  show ?case
  proof (cases "a < snd p")
    case False
    then show ?thesis using Cons [of l a] by simp
  next
    case True
    have f: "filter (\<lambda>q. snd p < snd q) ps
             = filter (\<lambda>q. snd p < snd q) (filter (\<lambda>q. a < snd q) ps)"
      using True by (auto intro: filter_cong)
    have "scan_areas (p # ps) (l, a) = scan_areas ps (Some (fst p), snd p)"
      using True by simp
    also have "\<dots> = (case first_max snd (filter (\<lambda>q. snd p < snd q) ps) of
                       None \<Rightarrow> (Some (fst p), snd p)
                     | Some q \<Rightarrow> (Some (fst q), snd q))"
      by (rule Cons)
    also have "\<dots> = (case first_max snd (filter (\<lambda>q. a < snd q) (p # ps)) of
                       None \<Rightarrow> (l, a)
                     | Some q \<Rightarrow> (Some (fst q), snd q))"
      unfolding f first_max_filter_above [of snd "snd p"] using True
      by (auto split: option.splits)
    finally show ?thesis .
  qed
qed

lemma images_loop_lcp:
  "fst (snd (images_loop str_len rs imgs (st, None, 0))) =
     map_option fst
       (first_max snd (filter (\<lambda>p. 0 < snd p) (compared_areas str_len rs imgs (st, None, 0))))"
  using snd_images_loop [of str_len rs imgs "(st, None, 0)"]
  by (simp add: scan_areas_first_max split: option.splits)

text \<open>
  C5, as the code has it. The LCP candidate of the transform is chosen by a rule of
  the same kind as the dominant image of the heuristic, the first element of largest
  area, but on another collection with another measure: among the pairs that the image
  loop compares (an image with a \<open>src\<close>, a resource that equals it and has a local
  path and a recorded width and height, an estimated position below the viewport
  height), it is the image of the first pair of largest recorded area among those of
  positive area, and there is none when there is no such pair. So the transform has a
  candidate only if some image resource with a local path has a recorded width and
  height of positive product; the width and height attributes are not consulted.
\<close>

theorem lcp_candidate_choice:
  "fst (snd (images_loop str_len (res_images rs) imgs (st, None, 0))) =
     map_option fst
       (first_max snd
          (filter (\<lambda>p. 0 < snd p)
             (compared_areas str_len (res_images rs) imgs (st, None, 0))))
   \<and> (snd (snd (optimize_html reparse str_len netloc set_order rs critical soup n)) = Some c \<longrightarrow>
        (\<exists>r \<in> set (res_images rs). local_path r \<noteq> None
           \<and> (\<exists>w h. width r = Some w \<and> height r = Some h \<and> 0 < w * h)))"
proof (intro conjI impI)
  show "fst (snd (images_loop str_len (res_images rs) imgs (st, None, 0))) =
     map_option fst
       (first_max snd
          (filter (\<lambda>p. 0 < snd p)
             (compared_areas str_len (res_images rs) imgs (st, None, 0))))"
    by (rule images_loop_lcp)
next
  assume c: "snd (snd (optimize_html reparse str_len netloc set_order rs critical soup n)) = Some c"
  obtain st' a where
    "lcp_justified (res_images rs) (st', Some c, a)"
    using optimize_html_lcp [of reparse str_len netloc set_order rs critical soup n] c by auto
  then have "0 < a" "recorded_area (res_images rs) a" by (auto simp: lcp_justified_def)
  then show "\<exists>r \<in> set (res_images rs). local_path r \<noteq> None
           \<and> (\<exists>w h. width r = Some w \<and> height r = Some h \<and> 0 < w * h)"
    unfolding recorded_area_def by blast
qed

theorem lcp_candidate_choice_witness:
  "snd (snd (optimize_html (\<lambda>t. t) (\<lambda>ts. 2) host_of remdups photo_resources None photo_page 2))
     = Some 3 \<and>
   (\<exists>r \<in> set (res_images photo_resources). local_path r \<noteq> None
        \<and> (\<exists>w h. width r = Some w \<and> height r = Some h \<and> 0 < w * h)) \<and>
   compared_areas (\<lambda>ts. 2) (res_images photo_resources) [3]
     (copy_dom (\<lambda>t. t) photo_page 2, None, 0) = [(3, 307200)] \<and>
   fst (snd (images_loop (\<lambda>ts. 2) (res_images photo_resources) [3]
               (copy_dom (\<lambda>t. t) photo_page 2, None, 0))) = Some 3"
proof -
  have c: "snd (snd (optimize_html (\<lambda>t. t) (\<lambda>ts. 2) host_of remdups photo_resources None photo_page 2))
             = Some 3"
    by code_simp
  have a: "compared_areas (\<lambda>ts. 2) (res_images photo_resources) [3]
             (copy_dom (\<lambda>t. t) photo_page 2, None, 0) = [(3, 307200)]"
    by code_simp
  have m: "map_option fst (first_max snd (filter (\<lambda>p. 0 < snd p) [(3::nat, 307200::int)]))
             = Some 3"
    by simp
  show ?thesis
    using c a m
          lcp_candidate_choice [of "\<lambda>ts. 2" photo_resources "[3]" "copy_dom (\<lambda>t. t) photo_page 2"
                                   "\<lambda>t. t" host_of remdups None photo_page 2 3]
    by simp
qed

text \<open>
  The statement of C5 fails: for a page with one image that declares its width and
  height and no downloaded resource, the transform has no LCP candidate, while the
  above-fold heuristic on the transformed tree selects the image.
\<close>

theorem lcp_differs_from_dominant_image:
  "snd (snd (optimize_html (\<lambda>t. t) (\<lambda>ts. 2) host_of remdups
               \<lparr>res_css = [], res_js = [], res_images = [], res_fonts = []\<rparr> None
               photo_page 2)) = None
   \<and> find_above_fold_elements
         (optimized_dom (fst (snd (optimize_html (\<lambda>t. t) (\<lambda>ts. 2) host_of remdups
               \<lparr>res_css = [], res_js = [], res_images = [], res_fonts = []\<rparr> None
               photo_page 2))))
       = Inr [Tag 3 ''img'' [(''src'', Str ''a.png''), (''width'', Str ''10''),
                             (''height'', Str ''10''), (''loading'', Str ''lazy'')] []]"
  by code_simp

section \<open>Exceptions\<close>

text \<open>
  C3 fails on the code at two inputs. An image whose width is not integer text makes
  \<open>find_above_fold_elements\<close> raise \<open>ValueError\<close>; a stylesheet link without
  \<open>href\<close> makes \<open>_optimize_html\<close> raise \<open>KeyError\<close> in the noscript step.
\<close>

theorem malformed_input_raises:
  "find_above_fold_elements
     (Tag 0 ''[document]'' []
        [Tag 1 ''img'' [(''width'', Str ''100%''), (''height'', Str ''50'')] []])
     = Inl ValueError
   \<and> fst (optimize_html (\<lambda>t. t) (\<lambda>ts. 2) host_of remdups
            \<lparr>res_css = [], res_js = [], res_images = [], res_fonts = []\<rparr> None
            (Tag 0 ''[document]'' [] [Tag 1 ''link'' [(''rel'', Toks [''stylesheet''])] []]) 2)
     = Some KeyError"
  by code_simp

end
